theory Spec2Isabelle
  imports Complex_Main "HOL-Library.Sublist" "HOL-Library.Log_Nat" "HOL-Library.Code_Target_Nat"
begin

section \<open>Strings and numbers of the source language\<close>

text \<open>
  The program is JavaScript (\<^verbatim>\<open>src/app.js\<close>). Its strings are modelled by \<^typ>\<open>string\<close>:
  a list of code units below 256, which covers every character the functions below test
  for. Its Number values are the binary64 floating-point numbers, modelled by \<open>number\<close>:
  NaN, the two infinities, and \<open>Finite x\<close> for the finite value whose exact value is the
  rational \<open>x\<close>. Positive and negative zero are not told apart; the program never
  divides by a quantity nor prints its sign.
\<close>

datatype number = NaN | Infinity | NegInfinity | Finite rat

subsection \<open>Rounding to binary64\<close>

text \<open>
  The language's Number value for a real \<open>x\<close>: of the finite binary64 values and the two
  values \<open>2 ^ 1024\<close> and \<open>- 2 ^ 1024\<close>, the one closest to \<open>x\<close>, the one with the even
  significand when two are equally close; \<open>2 ^ 1024\<close> and \<open>- 2 ^ 1024\<close> then stand for
  the infinity of their sign. Every arithmetic operation and every conversion of a
  literal returns the Number value of its exact result.

  A finite binary64 value is \<open>n * 2 ^ q\<close> with \<open>n\<close> below \<open>2 ^ 53\<close> and \<open>q\<close> at least
  \<open>- 1074\<close>. For \<open>2 ^ e \<le> a < 2 ^ (e + 1)\<close> the neighbours of \<open>a\<close> are the multiples of
  \<open>2 ^ q\<close> with \<open>q = max (e - 52) (- 1074)\<close>.
\<close>

text \<open>The \<open>e\<close> with \<open>2 ^ e \<le> a < 2 ^ (e + 1)\<close>, for a positive \<open>a\<close>, from the bit lengths of
  its numerator and denominator.\<close>

definition ilog2 :: "rat \<Rightarrow> int" where
  "ilog2 a =
     (let p = fst (quotient_of a); q = snd (quotient_of a); d = bitlen p - bitlen q
      in if a < 2 powi d then d - 1 else d)"

text \<open>The nearest integer, the even one of the two when \<open>m\<close> lies half way.\<close>

definition round_half_even :: "rat \<Rightarrow> int" where
  "round_half_even m =
     (let f = \<lfloor>m\<rfloor>; r = m - of_int f
      in if r < 1 / 2 then f
         else if 1 / 2 < r then f + 1
         else if even f then f else f + 1)"

definition ulp_exponent :: "rat \<Rightarrow> int" where
  "ulp_exponent a = max (ilog2 a - 52) (- 1074)"

definition round_magnitude :: "rat \<Rightarrow> rat" where
  "round_magnitude a =
     of_int (round_half_even (a / 2 powi ulp_exponent a)) * 2 powi ulp_exponent a"

definition Number_value :: "rat \<Rightarrow> number" where
  "Number_value x =
     (if x = 0 then Finite 0
      else
        let y = round_magnitude \<bar>x\<bar>
        in if 2 powi 1024 \<le> y then (if x < 0 then NegInfinity else Infinity)
           else Finite (if x < 0 then - y else y))"

text \<open>The rationals that are the exact value of a finite binary64 number.\<close>

definition is_binary64 :: "rat \<Rightarrow> bool" where
  "is_binary64 y =
     ((\<exists>n q. y = of_int n * 2 powi q \<and> \<bar>n\<bar> \<le> 2 ^ 53 \<and> - 1074 \<le> q) \<and> \<bar>y\<bar> < 2 powi 1024)"

subsection \<open>Arithmetic of the program\<close>

text \<open>\<^verbatim>\<open>-x\<close>, \<^verbatim>\<open>x / 2\<close>, \<^verbatim>\<open>x * 10\<close>, \<^verbatim>\<open>x * 2\<close>, \<^verbatim>\<open>x <= 150\<close> and \<^verbatim>\<open>Math.round(x)\<close> on
  Number values. \<^verbatim>\<open>Math.round\<close> returns the integral Number closest to its argument and,
  of two equally close ones, the one closer to plus infinity; for a binary64 argument
  that integer is a binary64 value itself, so nothing is rounded a second time.\<close>

fun num_neg :: "number \<Rightarrow> number" where
  "num_neg (Finite x) = Finite (- x)"
| "num_neg Infinity = NegInfinity"
| "num_neg NegInfinity = Infinity"
| "num_neg NaN = NaN"

fun num_half :: "number \<Rightarrow> number" where
  "num_half (Finite x) = Number_value (x / 2)"
| "num_half v = v"

fun num_times10 :: "number \<Rightarrow> number" where
  "num_times10 (Finite x) = Number_value (x * 10)"
| "num_times10 v = v"

fun num_times2 :: "number \<Rightarrow> number" where
  "num_times2 (Finite x) = Number_value (x * 2)"
| "num_times2 v = v"

fun num_le150 :: "number \<Rightarrow> bool" where
  "num_le150 (Finite x) = (x \<le> 150)"
| "num_le150 NegInfinity = True"
| "num_le150 v = False"

fun Math_round :: "number \<Rightarrow> number" where
  "Math_round (Finite x) = Finite (of_int \<lfloor>x + 1 / 2\<rfloor>)"
| "Math_round v = v"

subsection \<open>Strings\<close>

definition is_digit :: "char \<Rightarrow> bool" where
  "is_digit c = (c \<in> set ''0123456789'')"

definition is_upper :: "char \<Rightarrow> bool" where
  "is_upper c = (c \<in> set ''ABCDEFGHIJKLMNOPQRSTUVWXYZ'')"

text \<open>White space and line terminators of the language, as far as they are code units
  below 256: tab, line feed, vertical tab, form feed, carriage return, space, no-break
  space.\<close>

definition is_space :: "char \<Rightarrow> bool" where
  "is_space c = (of_char c \<in> {9, 10, 11, 12, 13, 32, 160 :: nat})"

definition trimStart :: "string \<Rightarrow> string" where
  "trimStart s = dropWhile is_space s"

definition trim :: "string \<Rightarrow> string" where
  "trim s = rev (dropWhile is_space (rev (dropWhile is_space s)))"

definition digit_val :: "char \<Rightarrow> nat" where
  "digit_val c = of_char c - 48"

definition digits_val :: "string \<Rightarrow> nat" where
  "digits_val ds = foldl (\<lambda>a c. 10 * a + digit_val c) 0 ds"

text \<open>\<^verbatim>\<open>str.replace(',', '.')\<close> with a string pattern replaces the first occurrence only.\<close>

fun replace_first :: "char \<Rightarrow> char \<Rightarrow> string \<Rightarrow> string" where
  "replace_first c d [] = []"
| "replace_first c d (x # xs) = (if x = c then d # xs else x # replace_first c d xs)"

text \<open>\<^verbatim>\<open>str.includes(c)\<close> for a one-character search string.\<close>

definition str_includes :: "string \<Rightarrow> char \<Rightarrow> bool" where
  "str_includes s c = (c \<in> set s)"

subsection \<open>The built-ins \<^verbatim>\<open>parseFloat\<close> and \<^verbatim>\<open>parseInt\<close>\<close>

text \<open>
  The language defines \<^verbatim>\<open>parseFloat(string)\<close> in three steps: strip leading white space;
  if no prefix of the rest is a \<^verbatim>\<open>StrDecimalLiteral\<close> return NaN; otherwise return the
  numeric value of the longest prefix that is one. A \<^verbatim>\<open>StrDecimalLiteral\<close> is an optional
  sign followed by a \<^verbatim>\<open>StrUnsignedDecimalLiteral\<close>: the word \<^verbatim>\<open>Infinity\<close>, or digits with
  an optional fraction and an optional exponent, or a dot, digits and an optional
  exponent. Its numeric value is the Number value of the decimal number it denotes
  (rounded correctly, as the engines do it for a literal of any length).
\<close>

text \<open>The exponent part: empty, or \<^verbatim>\<open>e\<close>/\<^verbatim>\<open>E\<close>, an optional sign and at least one digit.\<close>

definition SignedInteger :: "string \<Rightarrow> int option" where
  "SignedInteger s =
     (case s of
        [] \<Rightarrow> None
      | c # r \<Rightarrow>
          if c = CHR ''+'' then (if r \<noteq> [] \<and> list_all is_digit r then Some (int (digits_val r)) else None)
          else if c = CHR ''-'' then (if r \<noteq> [] \<and> list_all is_digit r then Some (- int (digits_val r)) else None)
          else if list_all is_digit s then Some (int (digits_val s)) else None)"

definition ExponentPart_opt :: "string \<Rightarrow> int option" where
  "ExponentPart_opt s =
     (case s of
        [] \<Rightarrow> Some 0
      | c # r \<Rightarrow> if c = CHR ''e'' \<or> c = CHR ''E'' then SignedInteger r else None)"

definition scale10 :: "nat \<Rightarrow> int \<Rightarrow> rat" where
  "scale10 m e = (if 0 \<le> e then of_nat m * 10 ^ nat e else of_nat m / 10 ^ nat (- e))"

text \<open>The decimal number that a string made of digits, an optional fraction and an
  optional exponent denotes, before any rounding; \<open>None\<close> when the string is not of that
  form.\<close>

definition decimal_value :: "string \<Rightarrow> rat option" where
  "decimal_value s =
     (let ip = takeWhile is_digit s; r = dropWhile is_digit s in
      case r of
        [] \<Rightarrow> if ip = [] then None else Some (of_nat (digits_val ip))
      | c # r' \<Rightarrow>
          if c = CHR ''.'' then
            (let fp = takeWhile is_digit r'; r'' = dropWhile is_digit r' in
             if ip = [] \<and> fp = [] then None
             else (case ExponentPart_opt r'' of
                     None \<Rightarrow> None
                   | Some e \<Rightarrow> Some (scale10 (digits_val (ip @ fp)) (e - int (length fp)))))
          else if ip = [] then None
          else (case ExponentPart_opt r of
                  None \<Rightarrow> None
                | Some e \<Rightarrow> Some (scale10 (digits_val ip) e)))"

text \<open>The numeric value of a string as \<^verbatim>\<open>StrUnsignedDecimalLiteral\<close> and as
  \<^verbatim>\<open>StrDecimalLiteral\<close>; \<open>None\<close> when the whole string is not one.\<close>

definition StrUnsignedDecimalLiteral :: "string \<Rightarrow> number option" where
  "StrUnsignedDecimalLiteral s =
     (if s = ''Infinity'' then Some Infinity
      else map_option Number_value (decimal_value s))"

definition has_minus :: "string \<Rightarrow> bool" where
  "has_minus s = (case s of [] \<Rightarrow> False | c # _ \<Rightarrow> c = CHR ''-'')"

definition strip_sign :: "string \<Rightarrow> string" where
  "strip_sign s = (case s of [] \<Rightarrow> [] | c # r \<Rightarrow> if c = CHR ''+'' \<or> c = CHR ''-'' then r else s)"

definition StrDecimalLiteral :: "string \<Rightarrow> number option" where
  "StrDecimalLiteral s =
     (case StrUnsignedDecimalLiteral (strip_sign s) of
        None \<Rightarrow> None
      | Some v \<Rightarrow> Some (if has_minus s then num_neg v else v))"

definition parseFloat :: "string \<Rightarrow> number" where
  "parseFloat s =
     (case List.map_filter StrDecimalLiteral (rev (prefixes (trimStart s))) of
        [] \<Rightarrow> NaN
      | v # _ \<Rightarrow> v)"

text \<open>\<^verbatim>\<open>parseInt(string, 10)\<close>: leading white space, an optional sign, then the longest run of
  decimal digits; NaN when that run is empty, otherwise the Number value of the integer.\<close>

definition parseInt10 :: "string \<Rightarrow> number" where
  "parseInt10 s =
     (let t = trimStart s;
          ds = takeWhile is_digit (strip_sign t)
      in if ds = [] then NaN
         else if has_minus t then num_neg (Number_value (of_nat (digits_val ds)))
         else Number_value (of_nat (digits_val ds)))"

section \<open>Field derivation (\<^verbatim>\<open>deriveFields\<close>, \<^verbatim>\<open>parseAantal\<close>, \<^verbatim>\<open>parseUnit\<close>)\<close>

text \<open>A raw note as the extraction service returns it. A field that is absent (or any
  other falsy value) is \<open>None\<close>; the source reads every field as \<^verbatim>\<open>note.f || ''\<close>.\<close>

record RawNote =
  n_datum :: "string option"
  n_aantal :: "string option"
  n_unit :: "string option"

record page_meta =
  fileName :: string
  fileIndex :: nat
  pageIndex :: nat

text \<open>\<^verbatim>\<open>v || ''\<close> for a string or absent \<^verbatim>\<open>v\<close>.\<close>

definition or_empty :: "string option \<Rightarrow> string" where
  "or_empty v = (case v of None \<Rightarrow> [] | Some s \<Rightarrow> s)"

text \<open>The functions push onto a shared \<^verbatim>\<open>warnings\<close> array; here they take the list and
  return it extended. \<^verbatim>\<open>null\<close> is \<open>None\<close> (and \<^verbatim>\<open>null * 10\<close> is 0).\<close>

definition parseAantal :: "string \<Rightarrow> string list \<Rightarrow> number option \<times> string list" where
  "parseAantal raw warnings =
     (if raw = [] then (None, warnings @ [''Missing aantal.''])
      else
        let normalized = replace_first CHR '','' CHR ''.'' raw;
            num = parseFloat normalized
        in if num = NaN then (None, warnings @ [''Aantal is not a number.''])
           else (Some num, warnings))"

record UnitInfo =
  valid :: bool
  letter :: string
  digits :: "number option"

text \<open>\<^verbatim>\<open>/^[A-Z][0-9]{2}$/.test(raw)\<close>: without the multiline flag the anchors are the two
  ends of the string, so the test holds for exactly the three-character strings whose
  characters are in the three classes.\<close>

definition unit_regex_test :: "string \<Rightarrow> bool" where
  "unit_regex_test raw = list_all2 (\<lambda>cls c. cls c) [is_upper, is_digit, is_digit] raw"

definition parseUnit :: "string \<Rightarrow> string list \<Rightarrow> UnitInfo \<times> string list" where
  "parseUnit raw warnings =
     (let v = unit_regex_test raw in
      (\<lparr> valid = v,
         letter = (if raw \<noteq> [] then [hd raw] else []),
         digits = (if v then Some (parseInt10 (drop 1 raw)) else None) \<rparr>,
       if \<not> v then warnings @ [''Unit format invalid.''] else warnings))"

record DerivedFields =
  datum :: string
  aantal :: string
  unit :: string
  hoogte_enkel :: "number option"
  hoogte_stack :: "number option"
  aantal2 :: "number option"
  pallet :: string
  warnings :: "string list"
  duplicate :: bool
  d_fileName :: string
  d_pageIndex :: nat

definition deriveFields :: "RawNote \<Rightarrow> page_meta \<Rightarrow> DerivedFields" where
  "deriveFields note meta =
     (let safeDatum = trim (or_empty (n_datum note));
          rawAantal = trim (or_empty (n_aantal note));
          rawUnit = trim (or_empty (n_unit note));
          (aantalNormalized, w1) = parseAantal rawAantal [];
          (unitInfo, w2) = parseUnit rawUnit w1;
          hoogte_enkel = (if valid unitInfo
                          then Some (case digits unitInfo of
                                       None \<Rightarrow> Finite 0
                                     | Some d \<Rightarrow> num_times10 d)
                          else None);
          w3 = (if valid unitInfo then w2 else w2 @ [''Unit invalid; hoogte_enkel missing.'']);
          hoogte_stack = (case hoogte_enkel of
                            None \<Rightarrow> None
                          | Some h \<Rightarrow> Some (if num_le150 h then num_times2 h else h));
          aantal2 = (case aantalNormalized of
                       None \<Rightarrow> None
                     | Some a \<Rightarrow>
                         Some (if (case hoogte_enkel of None \<Rightarrow> False | Some h \<Rightarrow> num_le150 h)
                               then Math_round (num_half a)
                               else Math_round a));
          pallet = (if letter unitInfo = ''M'' then ''BLOK'' else ''EURO'')
      in \<lparr> datum = safeDatum,
           aantal = rawAantal,
           unit = rawUnit,
           hoogte_enkel = hoogte_enkel,
           hoogte_stack = hoogte_stack,
           aantal2 = aantal2,
           pallet = pallet,
           warnings = w3,
           duplicate = False,
           d_fileName = fileName meta,
           d_pageIndex = pageIndex meta \<rparr>)"

text \<open>The trimmed raw strings that \<^verbatim>\<open>deriveFields\<close> passes to the two parsers, and the
  quantity \<^verbatim>\<open>parseAantal\<close> returns for a note.\<close>

definition raw_unit :: "RawNote \<Rightarrow> string" where
  "raw_unit note = trim (or_empty (n_unit note))"

definition raw_aantal :: "RawNote \<Rightarrow> string" where
  "raw_aantal note = trim (or_empty (n_aantal note))"

definition parsed_quantity :: "RawNote \<Rightarrow> number option" where
  "parsed_quantity note = fst (parseAantal (raw_aantal note) [])"

text \<open>The string \<^verbatim>\<open>parseFloat\<close> looks at inside \<^verbatim>\<open>parseAantal\<close>: the trimmed raw
  quantity with its first comma replaced, without leading white space.\<close>

definition normalized_aantal :: "string \<Rightarrow> string" where
  "normalized_aantal raw = trimStart (replace_first CHR '','' CHR ''.'' (trim raw))"

text \<open>The specification's rounding: \<open>n\<close> is the integer nearest to \<open>x\<close>, the upper one of
  the two when \<open>x\<close> lies half way.\<close>

definition nearest_integer_half_up :: "rat \<Rightarrow> int \<Rightarrow> bool" where
  "nearest_integer_half_up x n = (of_int n - 1 / 2 \<le> x \<and> x < of_int n + 1 / 2)"

section \<open>Result store, dedupe store and persisted state\<close>

text \<open>A row is the derived record extended by \<^verbatim>\<open>raw\<close>, \<^verbatim>\<open>meta\<close> and \<^verbatim>\<open>noteIndex\<close>
  (\<^verbatim>\<open>{ id, ...derived, raw: note, meta, noteIndex }\<close>). The \<^verbatim>\<open>id\<close>, a fresh random
  identifier, is left out: nothing below reads it.\<close>

record DerivedRow = DerivedFields +
  raw :: RawNote
  meta :: page_meta
  noteIndex :: nat

text \<open>The part of the global \<^verbatim>\<open>state\<close> that \<^verbatim>\<open>addNotes\<close>, \<^verbatim>\<open>saveRows\<close> and
  \<^verbatim>\<open>loadStoredRows\<close> touch, and the storage slot \<^verbatim>\<open>cmr-notes\<close>: \<open>None\<close> when nothing
  is stored, otherwise the collection that parsing the stored text gives back.\<close>

record app_state =
  rows :: "DerivedRow list"
  dedupe :: "string set"
  storage :: "DerivedRow list option"

text \<open>A page index in a template literal: the decimal digits of the number.\<close>

fun string_of_nat :: "nat \<Rightarrow> string" where
  "string_of_nat n =
     (if n < 10 then [char_of (48 + n)]
      else string_of_nat (n div 10) @ [char_of (48 + n mod 10)])"

text \<open>The key built in \<^verbatim>\<open>addNotes\<close>, from the note as it arrived, and the key built in
  \<^verbatim>\<open>loadStoredRows\<close>, from the fields of a stored row.\<close>

definition note_key :: "page_meta \<Rightarrow> RawNote \<Rightarrow> string" where
  "note_key m note =
     fileName m @ ''|'' @ string_of_nat (pageIndex m) @ ''|'' @ or_empty (n_datum note)
       @ ''|'' @ or_empty (n_aantal note) @ ''|'' @ or_empty (n_unit note)"

definition row_key :: "DerivedRow \<Rightarrow> string" where
  "row_key r =
     d_fileName r @ ''|'' @ string_of_nat (d_pageIndex r) @ ''|'' @ datum r
       @ ''|'' @ aantal r @ ''|'' @ unit r"

text \<open>Writing the rows as JSON text and reading them back keeps every field except a
  non-finite number, which is written as \<^verbatim>\<open>null\<close>. Only \<^verbatim>\<open>aantal2\<close> can hold one.\<close>

definition json_row :: "DerivedRow \<Rightarrow> DerivedRow" where
  "json_row r =
     r\<lparr> aantal2 := (case aantal2 r of Some (Finite x) \<Rightarrow> Some (Finite x) | _ \<Rightarrow> None) \<rparr>"

definition saveRows :: "app_state \<Rightarrow> app_state" where
  "saveRows s = s\<lparr> storage := Some (map json_row (rows s)) \<rparr>"

text \<open>The body of the \<^verbatim>\<open>forEach\<close> callback in \<^verbatim>\<open>addNotes\<close>.\<close>

definition addNote :: "page_meta \<Rightarrow> app_state \<Rightarrow> nat \<times> RawNote \<Rightarrow> app_state" where
  "addNote m s p =
     (let idx = fst p; note = snd p; key = note_key m note in
      if key \<in> dedupe s then s
      else s\<lparr> dedupe := insert key (dedupe s),
              rows := rows s @ [DerivedFields.extend (deriveFields note m)
                                  (DerivedRow.fields note m idx)] \<rparr>)"

definition addNotes :: "RawNote list \<Rightarrow> page_meta \<Rightarrow> app_state \<Rightarrow> app_state" where
  "addNotes notes m s = saveRows (foldl (addNote m) s (enumerate 0 notes))"

definition loadStoredRows :: "app_state \<Rightarrow> app_state" where
  "loadStoredRows s =
     (case storage s of
        None \<Rightarrow> s
      | Some rs \<Rightarrow> s\<lparr> rows := rs, dedupe := dedupe s \<union> set (map row_key rs) \<rparr>)"

text \<open>Loading the page: the \<^verbatim>\<open>state\<close> literal, then \<^verbatim>\<open>init\<close> calls \<^verbatim>\<open>loadStoredRows\<close>
  on whatever the storage slot holds.\<close>

definition page_load :: "DerivedRow list option \<Rightarrow> app_state" where
  "page_load slot = loadStoredRows \<lparr> rows = [], dedupe = {}, storage = slot \<rparr>"

section \<open>One page task (\<^verbatim>\<open>callExtractApi\<close>, \<^verbatim>\<open>handlePage\<close>)\<close>

text \<open>The values a parsed response body can be. An array is an array of notes; an
  object is the list of its properties, each name once.\<close>

datatype jsval =
    Undefined | Null | Bool bool | Num rat | Str string
  | Notes "RawNote list" | Obj "(string \<times> jsval) list"

datatype failure =
    RenderFailure | NetworkFailure | ApiStatusFailure nat | JsonSyntaxFailure | TypeFailure

text \<open>What \<^verbatim>\<open>fetch\<close> and \<^verbatim>\<open>res.json()\<close> deliver: no response at all, or a response with
  its \<^verbatim>\<open>ok\<close> flag, its status and its body (\<open>None\<close> when the body is not JSON).\<close>

datatype fetch_result = NetworkDown | Response bool nat "jsval option"

fun truthy :: "jsval \<Rightarrow> bool" where
  "truthy Undefined = False"
| "truthy Null = False"
| "truthy (Bool b) = b"
| "truthy (Num x) = (x \<noteq> 0)"
| "truthy (Str s) = (s \<noteq> [])"
| "truthy (Notes ns) = True"
| "truthy (Obj kvs) = True"

text \<open>Reading the property \<^verbatim>\<open>notes\<close>: a type error on \<^verbatim>\<open>null\<close> and \<^verbatim>\<open>undefined\<close>, the
  property's value on an object that has it, \<^verbatim>\<open>undefined\<close> on every other value.\<close>

fun get_notes :: "jsval \<Rightarrow> failure + jsval" where
  "get_notes Undefined = Inl TypeFailure"
| "get_notes Null = Inl TypeFailure"
| "get_notes (Obj kvs) = Inr (case map_of kvs ''notes'' of None \<Rightarrow> Undefined | Some v \<Rightarrow> v)"
| "get_notes v = Inr Undefined"

definition callExtractApi :: "fetch_result \<Rightarrow> failure + jsval" where
  "callExtractApi fr =
     (case fr of
        NetworkDown \<Rightarrow> Inl NetworkFailure
      | Response ok status body \<Rightarrow>
          if \<not> ok then Inl (ApiStatusFailure status)
          else (case body of
                  None \<Rightarrow> Inl JsonSyntaxFailure
                | Some data \<Rightarrow>
                    (case get_notes data of
                       Inl e \<Rightarrow> Inl e
                     | Inr v \<Rightarrow> Inr (if truthy v then v else Notes []))))"

text \<open>\<^verbatim>\<open>handlePage\<close>, given whether rendering the page succeeded and what the request
  delivered. The pointers it sets for the status text are not part of \<open>app_state\<close>.\<close>

definition handlePage :: "app_state \<Rightarrow> page_meta \<Rightarrow> bool \<Rightarrow> fetch_result \<Rightarrow> failure + app_state" where
  "handlePage s m rendered fr =
     (if \<not> rendered then Inl RenderFailure
      else (case callExtractApi fr of
              Inl e \<Rightarrow> Inl e
            | Inr notes \<Rightarrow>
                (case notes of
                   Notes ns \<Rightarrow> Inr (addNotes ns m s)
                 | _ \<Rightarrow> Inr s)))"

section \<open>CSV export (\<^verbatim>\<open>formatCsvValue\<close>)\<close>

definition dquote :: char where
  "dquote = CHR 0x22"

text \<open>\<^verbatim>\<open>str.replace(/"/g, '""')\<close>: every quote is doubled.\<close>

definition double_quotes :: "string \<Rightarrow> string" where
  "double_quotes s = concat (map (\<lambda>c. if c = dquote then [dquote, dquote] else [c]) s)"

text \<open>The argument is \<open>None\<close> for \<^verbatim>\<open>null\<close> and \<^verbatim>\<open>undefined\<close>, otherwise the string
  \<^verbatim>\<open>String(val)\<close>, which is the value itself for a string field.\<close>

definition formatCsvValue :: "string option \<Rightarrow> string" where
  "formatCsvValue val =
     (case val of
        None \<Rightarrow> []
      | Some str \<Rightarrow>
          if str_includes str CHR '','' \<or> str_includes str dquote
          then [dquote] @ double_quotes str @ [dquote]
          else str)"

text \<open>Modelled from the spec: the re-parsing of an exported cell "with comma/quote
  unescaping", which the repository does not contain. A cell that begins and ends with a
  quote loses both and every doubled quote inside becomes one; any other cell is taken
  as it is.\<close>

fun undouble_quotes :: "string \<Rightarrow> string" where
  "undouble_quotes (a # b # r) =
     (if a = dquote \<and> b = dquote then dquote # undouble_quotes r
      else a # undouble_quotes (b # r))"
| "undouble_quotes r = r"

definition csv_unescape :: "string \<Rightarrow> string" where
  "csv_unescape cell =
     (if 2 \<le> length cell \<and> hd cell = dquote \<and> last cell = dquote
      then undouble_quotes (butlast (tl cell))
      else cell)"

section \<open>The scheduler in \<^verbatim>\<open>processQueue\<close>\<close>

text \<open>
  The program runs on one thread: a callback runs to its end before the next one starts.
  The scheduler's state changes in two kinds of callbacks only, the first call of
  \<^verbatim>\<open>runNext\<close> and the \<^verbatim>\<open>finally\<close> handler of a task that has settled. The state holds
  the two counters of the closure, \<^verbatim>\<open>state.processedPages\<close> and \<^verbatim>\<open>state.inProgress\<close>, the
  tasks whose promise is pending (\<open>in_flight\<close>) and the tasks called so far in call order
  (\<open>dispatched\<close>); a task is its index in the flattened list.
\<close>

record run_state =
  cursor :: nat
  running :: int
  processedPages :: nat
  inProgress :: bool
  in_flight :: "nat list"
  dispatched :: "nat list"

definition concurrency :: int where
  "concurrency = 2"

text \<open>The flattened task list: for every file in order, its pages from 1 up; a task is
  the pair of file index and page index.\<close>

definition page_tasks :: "nat list \<Rightarrow> (nat \<times> nat) list" where
  "page_tasks numPages =
     concat (map (\<lambda>p. map (\<lambda>pageIndex. (fst p, pageIndex)) [1 ..< Suc (snd p)])
                 (enumerate 0 numPages))"

text \<open>The \<^verbatim>\<open>while\<close> loop of \<^verbatim>\<open>runNext\<close> over \<open>n\<close> tasks.\<close>

function refill :: "nat \<Rightarrow> run_state \<Rightarrow> run_state" where
  "refill n s =
     (if running s < concurrency \<and> cursor s < n
      then refill n (s\<lparr> cursor := cursor s + 1,
                         running := running s + 1,
                         in_flight := in_flight s @ [cursor s],
                         dispatched := dispatched s @ [cursor s] \<rparr>)
      else s)"
  by pat_completeness auto
termination
  by (relation "measure (\<lambda>(n, s). n - cursor s)") auto

declare refill.simps [simp del]

definition runNext :: "nat \<Rightarrow> run_state \<Rightarrow> run_state" where
  "runNext n s =
     (if n \<le> cursor s \<and> running s = 0 then s\<lparr> inProgress := False \<rparr> else refill n s)"

text \<open>The state when the promise is created and \<^verbatim>\<open>runNext\<close> is called for the first time.\<close>

definition start :: "nat \<Rightarrow> run_state" where
  "start n =
     runNext n \<lparr> cursor = 0, running = 0, processedPages = 0, inProgress = True,
                 in_flight = [], dispatched = [] \<rparr>"

text \<open>The \<^verbatim>\<open>finally\<close> handler of task \<open>t\<close>. It runs whether the task's promise was
  fulfilled or rejected (the \<^verbatim>\<open>catch\<close> handler before it only reports the failure).\<close>

datatype outcome = Fulfilled | Rejected

definition settle :: "nat \<Rightarrow> nat \<Rightarrow> outcome \<Rightarrow> run_state \<Rightarrow> run_state" where
  "settle n t res s =
     runNext n (s\<lparr> running := running s - 1,
                   processedPages := processedPages s + 1,
                   in_flight := remove1 t (in_flight s) \<rparr>)"

text \<open>The states a run over \<open>n\<close> tasks can be in: the start, and from any such state the
  one after a pending task has settled, in any order and with either outcome.\<close>

inductive reachable :: "nat \<Rightarrow> run_state \<Rightarrow> bool" for n :: nat where
  reachable_start: "reachable n (start n)"
| reachable_settle: "reachable n s \<Longrightarrow> t \<in> set (in_flight s) \<Longrightarrow> reachable n (settle n t res s)"

text \<open>The keys of the rows in the store, as \<^verbatim>\<open>addNotes\<close> computed them on admission.\<close>

definition admitted_keys :: "app_state \<Rightarrow> string list" where
  "admitted_keys s = map (\<lambda>r. note_key (meta r) (raw r)) (rows s)"

text \<open>What holds of the scheduler's state between any two callbacks of a run over \<open>n\<close>
  tasks.\<close>

definition sched_inv :: "nat \<Rightarrow> run_state \<Rightarrow> bool" where
  "sched_inv n s =
     (cursor s \<le> n
      \<and> running s = int (length (in_flight s))
      \<and> running s \<le> concurrency
      \<and> dispatched s = [0 ..< cursor s]
      \<and> cursor s = processedPages s + length (in_flight s)
      \<and> distinct (in_flight s)
      \<and> set (in_flight s) \<subseteq> {..< cursor s}
      \<and> inProgress s = (processedPages s < n)
      \<and> (running s = concurrency \<or> cursor s = n))"

section \<open>Properties of the rounding to binary64\<close>

lemma pow2_pos: "0 < (2::rat) powi e"
  by simp

lemma pow2_le: "i \<le> j \<Longrightarrow> (2::rat) powi i \<le> 2 powi j"
  by (rule power_int_increasing) simp_all

lemma pow2_less: "i < j \<Longrightarrow> (2::rat) powi i < 2 powi j"
  by (rule power_int_strict_increasing) simp_all

lemma pow2_less_cancel: "(2::rat) powi i < 2 powi j \<Longrightarrow> i < j"
  using pow2_le[of j i] by (cases "i < j") auto

lemma pow2_le_cancel: "(2::rat) powi i \<le> 2 powi j \<Longrightarrow> i \<le> j"
  using pow2_less[of j i] by (cases "i \<le> j") auto

lemma pow2_add: "(2::rat) powi (i + j) = 2 powi i * 2 powi j"
  by (rule power_int_add) simp

lemma pow2_diff: "(2::rat) powi (i - j) = 2 powi i / 2 powi j"
  by (rule power_int_diff) simp

lemma pow2_nat: "0 \<le> i \<Longrightarrow> (2::rat) powi i = of_int (2 ^ nat i)"
  by (simp add: power_int_nonneg_exp)

lemma ilog2_bounds:
  assumes "0 < a"
  shows "2 powi ilog2 a \<le> a" and "a < 2 powi (ilog2 a + 1)"
proof -
  obtain p q where pq: "quotient_of a = (p, q)" by (cases "quotient_of a")
  then have q: "0 < q" and a: "a = of_int p / of_int q"
    by (simp_all add: quotient_of_denom_pos quotient_of_div)
  with assms have p: "0 < p" by (simp add: zero_less_divide_iff)
  define d where "d = bitlen p - bitlen q"
  from bitlen_bounds[OF p] have bp: "2 ^ nat (bitlen p - 1) \<le> p" "p < 2 ^ nat (bitlen p)" by auto
  from bitlen_bounds[OF q] have bq: "2 ^ nat (bitlen q - 1) \<le> q" "q < 2 ^ nat (bitlen q)" by auto
  have p1: "1 \<le> bitlen p" using p by (auto simp: bitlen_alt_def)
  have q1: "1 \<le> bitlen q" using q by (auto simp: bitlen_alt_def)
  have rp: "(2::rat) powi (bitlen p - 1) \<le> of_int p" "of_int p < (2::rat) powi bitlen p"
  proof -
    have "(2::rat) powi (bitlen p - 1) = of_int (2 ^ nat (bitlen p - 1))"
      using p1 by (intro pow2_nat) simp
    also have "\<dots> \<le> of_int p" using bp(1) by (simp only: of_int_le_iff)
    finally show "(2::rat) powi (bitlen p - 1) \<le> of_int p" .
    have "of_int p < (of_int (2 ^ nat (bitlen p)) :: rat)" using bp(2) by (simp only: of_int_less_iff)
    also have "\<dots> = 2 powi bitlen p" using p1 by (intro pow2_nat[symmetric]) simp
    finally show "of_int p < (2::rat) powi bitlen p" .
  qed
  have rq: "(2::rat) powi (bitlen q - 1) \<le> of_int q" "of_int q < (2::rat) powi bitlen q"
  proof -
    have "(2::rat) powi (bitlen q - 1) = of_int (2 ^ nat (bitlen q - 1))"
      using q1 by (intro pow2_nat) simp
    also have "\<dots> \<le> of_int q" using bq(1) by (simp only: of_int_le_iff)
    finally show "(2::rat) powi (bitlen q - 1) \<le> of_int q" .
    have "of_int q < (of_int (2 ^ nat (bitlen q)) :: rat)" using bq(2) by (simp only: of_int_less_iff)
    also have "\<dots> = 2 powi bitlen q" using q1 by (intro pow2_nat[symmetric]) simp
    finally show "of_int q < (2::rat) powi bitlen q" .
  qed
  have qpos: "0 < (of_int q :: rat)" using q by simp
  have lo: "2 powi (d - 1) \<le> a"
  proof -
    have "(2::rat) powi (d - 1) * of_int q \<le> 2 powi (d - 1) * 2 powi bitlen q"
      using rq(2) by (intro mult_left_mono) simp_all
    also have "\<dots> = 2 powi (bitlen p - 1)"
      unfolding d_def by (simp flip: pow2_add)
    also have "\<dots> \<le> of_int p" by (rule rp(1))
    finally show ?thesis unfolding a using qpos by (simp add: pos_le_divide_eq)
  qed
  have hi: "a < 2 powi (d + 1)"
  proof -
    have "of_int p < (2::rat) powi bitlen p" by (rule rp(2))
    also have "\<dots> = 2 powi (d + 1) * 2 powi (bitlen q - 1)"
      unfolding d_def by (simp flip: pow2_add)
    also have "\<dots> \<le> 2 powi (d + 1) * of_int q"
      using rq(1) by (intro mult_left_mono) simp_all
    finally show ?thesis unfolding a using qpos by (simp add: pos_divide_less_eq)
  qed
  have e: "ilog2 a = (if a < 2 powi d then d - 1 else d)"
    by (simp add: ilog2_def pq d_def Let_def)
  show "2 powi ilog2 a \<le> a" using lo by (simp add: e)
  show "a < 2 powi (ilog2 a + 1)" using hi by (simp add: e)
qed

lemma round_half_even_of_int: "round_half_even (of_int k) = k"
  by (simp add: round_half_even_def)

lemma round_half_even_le: "m \<le> of_int K \<Longrightarrow> round_half_even m \<le> K"
  unfolding round_half_even_def Let_def by (auto split: if_splits) linarith+

lemma round_half_even_ge: "of_int K \<le> m \<Longrightarrow> K \<le> round_half_even m"
  unfolding round_half_even_def Let_def by (auto split: if_splits) linarith+

lemma ulp_exponent_ge: "- 1074 \<le> ulp_exponent a"
  by (simp add: ulp_exponent_def)

lemma scaled_less:
  assumes "0 < a"
  shows "a / 2 powi ulp_exponent a < of_int (2 ^ 53)"
proof -
  have "ilog2 a + 1 \<le> ulp_exponent a + 53" by (simp add: ulp_exponent_def)
  then have "(2::rat) powi (ilog2 a + 1) \<le> 2 powi (ulp_exponent a + 53)" by (rule pow2_le)
  with ilog2_bounds(2)[OF assms] have "a < 2 powi (ulp_exponent a + 53)" by simp
  also have "\<dots> = 2 powi 53 * 2 powi ulp_exponent a" by (simp add: pow2_add)
  finally have "a / 2 powi ulp_exponent a < 2 powi 53"
    by (simp add: pos_divide_less_eq)
  then show ?thesis by simp
qed

lemma round_magnitude_grid:
  assumes "0 < a"
  shows "\<exists>n. round_magnitude a = of_int n * 2 powi ulp_exponent a \<and> 0 \<le> n \<and> n \<le> 2 ^ 53"
proof -
  let ?m = "a / 2 powi ulp_exponent a"
  have "of_int 0 \<le> ?m" using assms by simp
  then have "0 \<le> round_half_even ?m" by (rule round_half_even_ge)
  moreover have "round_half_even ?m \<le> 2 ^ 53"
    using scaled_less[OF assms] by (intro round_half_even_le) simp
  ultimately show ?thesis unfolding round_magnitude_def by blast
qed

lemma round_magnitude_fix:
  assumes N: "0 < N" "N \<le> 2 ^ 53" and q0: "- 1074 \<le> q0"
  shows "round_magnitude (of_int N * 2 powi q0) = of_int N * 2 powi q0"
proof -
  let ?a = "of_int N * 2 powi q0 :: rat"
  let ?q = "ulp_exponent ?a"
  have a: "0 < ?a" using N(1) by simp
  have Nr: "(of_int N :: rat) \<le> 2 powi 53" using N(2)
    by (metis of_int_le_iff of_int_numeral of_int_power power_int_numeral)
  have "2 powi ilog2 ?a \<le> ?a" by (rule ilog2_bounds(1)[OF a])
  also have "\<dots> \<le> 2 powi 53 * 2 powi q0" using Nr by (intro mult_right_mono) simp_all
  also have "\<dots> = 2 powi (53 + q0)" by (simp add: pow2_add)
  finally have e: "ilog2 ?a \<le> 53 + q0" by (rule pow2_le_cancel)
  have "\<exists>k. ?a / 2 powi ?q = of_int k"
  proof (cases "ilog2 ?a - 52 \<le> q0")
    case True
    with q0 have "?q \<le> q0" by (simp add: ulp_exponent_def)
    then have K: "(2::rat) powi (q0 - ?q) = of_int (2 ^ nat (q0 - ?q))" by (intro pow2_nat) simp
    have "?a / 2 powi ?q = of_int N * (2 powi q0 / 2 powi ?q)" by simp
    also have "\<dots> = of_int N * 2 powi (q0 - ?q)" by (simp only: pow2_diff)
    also have "\<dots> = of_int N * of_int (2 ^ nat (q0 - ?q))" by (simp only: K)
    also have "\<dots> = of_int (N * 2 ^ nat (q0 - ?q))" by simp
    finally show ?thesis by blast
  next
    case False
    with e have e': "ilog2 ?a = 53 + q0" by simp
    have "2 powi (53 + q0) \<le> ?a" using ilog2_bounds(1)[OF a] by (simp add: e')
    then have "2 powi 53 * 2 powi q0 \<le> of_int N * (2::rat) powi q0" by (simp add: pow2_add)
    then have "(2::rat) powi 53 \<le> of_int N" by simp
    with Nr have Ne: "(of_int N :: rat) = 2 powi 53" by simp
    from e' q0 have qe: "?q = q0 + 1" by (simp add: ulp_exponent_def)
    have "?a / 2 powi ?q = ?a / 2 powi (q0 + 1)" by (simp only: qe)
    also have "\<dots> = 2 powi 53 * 2 powi q0 / 2 powi (q0 + 1)" by (simp only: Ne)
    also have "\<dots> = 2 powi 52" by (simp add: power_int_add)
    also have "\<dots> = of_int (2 ^ 52)" by simp
    finally show ?thesis by blast
  qed
  then obtain k where k: "?a / 2 powi ?q = of_int k" by blast
  have "round_magnitude ?a = of_int k * 2 powi ?q"
    unfolding round_magnitude_def k round_half_even_of_int ..
  also have "\<dots> = ?a" unfolding k[symmetric] by simp
  finally show ?thesis .
qed

lemma round_magnitude_small:
  assumes "0 < a" and "a \<le> 1 / 4"
  shows "round_magnitude a \<le> 1 / 4"
proof -
  let ?q = "ulp_exponent a"
  have "2 powi ilog2 a \<le> a" by (rule ilog2_bounds(1)[OF assms(1)])
  also have "\<dots> \<le> 2 powi (- 2)" using assms(2) by simp
  finally have "ilog2 a \<le> - 2" by (rule pow2_le_cancel)
  then have q: "?q \<le> - 54" by (simp add: ulp_exponent_def)
  then have K: "(2::rat) powi (- 2 - ?q) = of_int (2 ^ nat (- 2 - ?q))" by (intro pow2_nat) simp
  have "a / 2 powi ?q \<le> 2 powi (- 2) / 2 powi ?q"
    using assms(2) by (intro divide_right_mono) simp_all
  also have "\<dots> = of_int (2 ^ nat (- 2 - ?q))" unfolding K[symmetric] by (simp add: pow2_diff)
  finally have "round_half_even (a / 2 powi ?q) \<le> 2 ^ nat (- 2 - ?q)"
    by (rule round_half_even_le)
  then have "(of_int (round_half_even (a / 2 powi ?q)) :: rat) \<le> of_int (2 ^ nat (- 2 - ?q))"
    by (simp only: of_int_le_iff)
  then have "round_magnitude a \<le> of_int (2 ^ nat (- 2 - ?q)) * 2 powi ?q"
    unfolding round_magnitude_def by (intro mult_right_mono) simp_all
  also have "\<dots> = 2 powi (- 2)" unfolding K[symmetric] by (simp flip: pow2_add)
  finally show ?thesis by simp
qed

lemma round_magnitude_overflow:
  assumes "2 powi 1024 \<le> a"
  shows "2 powi 1024 \<le> round_magnitude a"
proof -
  let ?q = "ulp_exponent a"
  have a: "0 < a" using assms pow2_pos[of 1024] by linarith
  have "(2::rat) powi 1024 \<le> a" by (rule assms)
  also have "a < 2 powi (ilog2 a + 1)" by (rule ilog2_bounds(2)[OF a])
  finally have e: "1024 \<le> ilog2 a" using pow2_less_cancel[of 1024 "ilog2 a + 1"] by simp
  then have q: "?q = ilog2 a - 52" by (simp add: ulp_exponent_def)
  have "of_int (2 ^ 52) = (2::rat) powi ilog2 a / 2 powi ?q" unfolding q by (simp flip: pow2_diff)
  also have "\<dots> \<le> a / 2 powi ?q"
    using ilog2_bounds(1)[OF a] by (intro divide_right_mono) simp_all
  finally have "2 ^ 52 \<le> round_half_even (a / 2 powi ?q)" by (rule round_half_even_ge)
  then have "(of_int (2 ^ 52) :: rat) \<le> of_int (round_half_even (a / 2 powi ?q))"
    by (simp only: of_int_le_iff)
  then have "of_int (2 ^ 52) * 2 powi ?q \<le> round_magnitude a"
    unfolding round_magnitude_def by (intro mult_right_mono) simp_all
  moreover have "of_int (2 ^ 52) * 2 powi ?q = (2::rat) powi ilog2 a"
    unfolding q by (simp add: pow2_diff)
  moreover have "(2::rat) powi 1024 \<le> 2 powi ilog2 a" using e by (rule pow2_le)
  ultimately show ?thesis by linarith
qed

lemma Number_value_not_NaN: "Number_value x \<noteq> NaN"
  by (simp add: Number_value_def Let_def)

lemma Number_value_binary64:
  assumes "Number_value x = Finite y"
  shows "is_binary64 y"
proof (cases "x = 0")
  case True
  with assms have "y = 0" by (simp add: Number_value_def)
  then show ?thesis unfolding is_binary64_def by (auto intro: exI[of _ 0])
next
  case False
  then have a: "0 < \<bar>x\<bar>" by simp
  from round_magnitude_grid[OF a] obtain n where
    n: "round_magnitude \<bar>x\<bar> = of_int n * 2 powi ulp_exponent \<bar>x\<bar>" "0 \<le> n" "n \<le> 2 ^ 53" by blast
  from assms False have lt: "round_magnitude \<bar>x\<bar> < 2 powi 1024"
    and y: "y = (if x < 0 then - round_magnitude \<bar>x\<bar> else round_magnitude \<bar>x\<bar>)"
    by (auto simp: Number_value_def Let_def split: if_splits)
  have ge: "0 \<le> round_magnitude \<bar>x\<bar>" unfolding n(1) using n(2) by simp
  show ?thesis
  proof (cases "x < 0")
    case True
    with y n(1) have "y = of_int (- n) * 2 powi ulp_exponent \<bar>x\<bar>" by simp
    moreover have "\<bar>- n\<bar> \<le> 2 ^ 53" using n(2,3) by simp
    moreover have "\<bar>y\<bar> < 2 powi 1024" using y True lt ge by simp
    ultimately show ?thesis unfolding is_binary64_def using ulp_exponent_ge by blast
  next
    case False
    with y n(1) have "y = of_int n * 2 powi ulp_exponent \<bar>x\<bar>" by simp
    moreover have "\<bar>n\<bar> \<le> 2 ^ 53" using n(2,3) by simp
    moreover have "\<bar>y\<bar> < 2 powi 1024" using y False lt ge by simp
    ultimately show ?thesis unfolding is_binary64_def using ulp_exponent_ge by blast
  qed
qed

lemma round_magnitude_binary64:
  assumes "is_binary64 y" and "y \<noteq> 0"
  shows "round_magnitude \<bar>y\<bar> = \<bar>y\<bar>"
proof -
  from assms(1) obtain n q where nq: "y = of_int n * 2 powi q" "\<bar>n\<bar> \<le> 2 ^ 53" "- 1074 \<le> q"
    unfolding is_binary64_def by blast
  from nq(1) assms(2) have "n \<noteq> 0" by auto
  then have pos: "0 < \<bar>n\<bar>" by simp
  have "\<bar>y\<bar> = of_int \<bar>n\<bar> * 2 powi q" unfolding nq(1) by (simp add: abs_mult)
  then show ?thesis using round_magnitude_fix[OF pos nq(2,3)] by simp
qed

lemma Number_value_binary64_id:
  assumes "is_binary64 y"
  shows "Number_value y = Finite y"
proof (cases "y = 0")
  case True
  then show ?thesis by (simp add: Number_value_def)
next
  case False
  from assms have "\<bar>y\<bar> < 2 powi 1024" unfolding is_binary64_def by blast
  with False round_magnitude_binary64[OF assms False] show ?thesis
    by (simp add: Number_value_def Let_def)
qed

lemma Number_value_small:
  assumes "\<bar>z\<bar> \<le> 1 / 4"
  shows "\<exists>y. Number_value z = Finite y \<and> \<bar>y\<bar> \<le> 1 / 4"
proof (cases "z = 0")
  case True
  then show ?thesis by (simp add: Number_value_def)
next
  case False
  then have a: "0 < \<bar>z\<bar>" by simp
  from round_magnitude_small[OF a assms] have le: "round_magnitude \<bar>z\<bar> \<le> 1 / 4" .
  from round_magnitude_grid[OF a] have ge: "0 \<le> round_magnitude \<bar>z\<bar>" by auto
  have "(1 / 4 :: rat) < 2 powi 1024" using pow2_less[of "- 2" 1024] by simp
  with le have nov: "\<not> 2 powi 1024 \<le> round_magnitude \<bar>z\<bar>" by linarith
  define r where "r = round_magnitude \<bar>z\<bar>"
  have "Number_value z = Finite (if z < 0 then - r else r)"
    using False nov unfolding r_def by (simp add: Number_value_def Let_def)
  moreover have "r \<le> 1 / 4" "0 \<le> r" using le ge by (simp_all only: r_def)
  then have "\<bar>if z < 0 then - r else r\<bar> \<le> 1 / 4" by (cases "z < 0") simp_all
  ultimately show ?thesis by blast
qed

lemma Number_value_overflow:
  assumes "2 powi 1024 \<le> \<bar>x\<bar>"
  shows "Number_value x = (if x < 0 then NegInfinity else Infinity)"
proof -
  from assms pow2_pos[of 1024] have "x \<noteq> 0" by auto
  with round_magnitude_overflow[OF assms] show ?thesis
    by (simp add: Number_value_def Let_def)
qed

lemma is_binary64_of_int: "\<bar>n\<bar> < 2 ^ 53 \<Longrightarrow> is_binary64 (of_int n)"
proof -
  assume n: "\<bar>n\<bar> < 2 ^ 53"
  have "of_int n = (of_int n :: rat) * 2 powi 0" by simp
  moreover have "\<bar>of_int n :: rat\<bar> < 2 powi 1024"
  proof -
    have "\<bar>of_int n :: rat\<bar> = of_int \<bar>n\<bar>" by simp
    also have "\<dots> < of_int (2 ^ 53)" using n by (simp only: of_int_less_iff)
    also have "\<dots> = 2 powi 53" by simp
    also have "\<dots> < 2 powi 1024" by (rule pow2_less) simp
    finally show ?thesis .
  qed
  ultimately show ?thesis unfolding is_binary64_def using n
    by (intro conjI exI[of _ n] exI[of _ 0]) simp_all
qed

lemma is_binary64_uminus: "is_binary64 y \<Longrightarrow> is_binary64 (- y)"
proof -
  assume "is_binary64 y"
  then obtain n q where nq: "y = of_int n * 2 powi q" "\<bar>n\<bar> \<le> 2 ^ 53" "- 1074 \<le> q"
    and lt: "\<bar>y\<bar> < 2 powi 1024" unfolding is_binary64_def by blast
  from nq(1) have "- y = of_int (- n) * 2 powi q" by simp
  moreover from nq(2) have "\<bar>- n\<bar> \<le> 2 ^ 53" by simp
  ultimately show ?thesis unfolding is_binary64_def using nq(3) lt by (metis abs_minus_cancel)
qed

lemma is_binary64_half:
  assumes "is_binary64 x" and "1 / 2 < \<bar>x\<bar>"
  shows "is_binary64 (x / 2)"
proof -
  from assms(1) obtain n q where nq: "x = of_int n * 2 powi q" "\<bar>n\<bar> \<le> 2 ^ 53" "- 1074 \<le> q"
    and lt: "\<bar>x\<bar> < 2 powi 1024" unfolding is_binary64_def by blast
  have "q \<noteq> - 1074"
  proof
    assume q: "q = - 1074"
    have "\<bar>x\<bar> = of_int \<bar>n\<bar> * 2 powi q" unfolding nq(1) by (simp add: abs_mult)
    also have "\<dots> \<le> of_int (2 ^ 53) * 2 powi q"
      using nq(2) by (intro mult_right_mono) (simp_all only: of_int_le_iff zero_le_power_int zero_le_numeral)
    also have "\<dots> = 2 powi (53 + q)" by (simp add: pow2_add)
    also have "\<dots> \<le> 2 powi (- 1)" unfolding q by (rule pow2_le) simp
    also have "\<dots> = 1 / 2" by simp
    finally show False using assms(2) by simp
  qed
  with nq(3) have q': "- 1074 \<le> q - 1" by simp
  have "x / 2 = of_int n * 2 powi (q - 1)" unfolding nq(1) by (simp add: pow2_diff)
  moreover have "\<bar>x / 2\<bar> < 2 powi 1024" using lt by simp
  ultimately show ?thesis unfolding is_binary64_def using nq(2) q' by blast
qed

lemma ilog2_unique:
  assumes "0 < a" and "2 powi e \<le> a" and "a < 2 powi (e + 1)"
  shows "ilog2 a = e"
proof -
  from ilog2_bounds[OF assms(1)] assms(2,3)
  have l: "(2::rat) powi ilog2 a < 2 powi (e + 1)" "(2::rat) powi e < 2 powi (ilog2 a + 1)" by linarith+
  from l(1) have "ilog2 a < e + 1" by (rule pow2_less_cancel)
  moreover from l(2) have "e < ilog2 a + 1" by (rule pow2_less_cancel)
  ultimately show ?thesis by simp
qed

lemma round_half_even_near:
  assumes "of_int k - 1 / 2 < m" and "m < of_int k + 1 / 2"
  shows "round_half_even m = k"
proof -
  have "\<lfloor>m\<rfloor> = k \<or> \<lfloor>m\<rfloor> = k - 1" using assms by linarith
  then show ?thesis
  proof
    assume f: "\<lfloor>m\<rfloor> = k"
    then have "m - of_int \<lfloor>m\<rfloor> < 1 / 2" using assms(2) by simp
    then show ?thesis unfolding round_half_even_def Let_def using f by simp
  next
    assume f: "\<lfloor>m\<rfloor> = k - 1"
    then have "1 / 2 < m - of_int \<lfloor>m\<rfloor>" using assms(1) by simp
    then show ?thesis unfolding round_half_even_def Let_def using f by simp
  qed
qed

text \<open>A literal with seventeen digits that is not a binary64 value: it is rounded to 3.\<close>

lemma Number_value_near_3: "Number_value (29999999999999999 / 10 ^ 16) = Finite 3"
proof -
  let ?a = "29999999999999999 / 10 ^ 16 :: rat"
  have a: "0 < ?a" by simp
  have e: "ilog2 ?a = 1" by (rule ilog2_unique) simp_all
  have q: "ulp_exponent ?a = - 51" by (simp only: ulp_exponent_def e)
  have r: "round_half_even (?a / 2 powi (- 51)) = 3 * 2 ^ 51"
    by (rule round_half_even_near) simp_all
  have y: "round_magnitude \<bar>?a\<bar> = 3"
    unfolding round_magnitude_def abs_of_pos[OF a] q r by simp
  show ?thesis unfolding Number_value_def Let_def y by simp
qed

lemma pow2_53: "(of_int (2 ^ 53) :: rat) = 2 powi 53"
  by simp

text \<open>For a binary64 argument the result of \<^verbatim>\<open>Math.round\<close> is a binary64 value.\<close>

lemma floor_half_binary64:
  assumes "is_binary64 x"
  shows "is_binary64 (of_int \<lfloor>x + 1 / 2\<rfloor>)"
proof -
  from assms obtain n q where nq: "x = of_int n * 2 powi q" "\<bar>n\<bar> \<le> 2 ^ 53" "- 1074 \<le> q"
    and lt: "\<bar>x\<bar> < 2 powi 1024" unfolding is_binary64_def by blast
  show ?thesis
  proof (cases "0 \<le> q")
    case True
    then have "x = of_int (n * 2 ^ nat q)" unfolding nq(1) by (simp add: pow2_nat)
    then obtain k where k: "x = of_int k" by blast
    have "\<lfloor>x + 1 / 2\<rfloor> = k" unfolding k by (rule floor_unique) simp_all
    then have "of_int \<lfloor>x + 1 / 2\<rfloor> = x" unfolding k by simp
    with assms show ?thesis by simp
  next
    case False
    then have "(2::rat) powi q \<le> 2 powi (- 1)" by (intro pow2_le) simp
    then have q2: "(2::rat) powi q \<le> 1 / 2" by simp
    have "\<bar>x\<bar> = of_int \<bar>n\<bar> * 2 powi q" unfolding nq(1) by (simp add: abs_mult)
    also have "\<dots> \<le> of_int (2 ^ 53) * 2 powi q"
      using nq(2) by (intro mult_right_mono) (simp_all only: of_int_le_iff zero_le_power_int zero_le_numeral)
    also have "\<dots> \<le> of_int (2 ^ 53) * (1 / 2)"
      using q2 by (intro mult_left_mono) simp_all
    also have "\<dots> = of_int (2 ^ 52)" by simp
    finally have ax: "\<bar>x\<bar> \<le> of_int (2 ^ 52)" .
    then have "x + 1 / 2 < of_int (2 ^ 52 + 1)" "of_int (- (2 ^ 52)) \<le> x + 1 / 2" by simp_all
    then have fl: "\<lfloor>x + 1 / 2\<rfloor> < 2 ^ 52 + 1" "- (2 ^ 52) \<le> \<lfloor>x + 1 / 2\<rfloor>"
      by (simp_all only: floor_less_iff le_floor_iff)
    define f where "f = \<lfloor>x + 1 / 2\<rfloor>"
    from fl have "f < 2 ^ 52 + 1" "- (2 ^ 52) \<le> f" by (simp_all only: f_def)
    then have "\<bar>f\<bar> < 2 ^ 53" by simp
    then show ?thesis unfolding f_def by (rule is_binary64_of_int)
  qed
qed

section \<open>Properties of the field derivation\<close>

subsection \<open>Characters, the unit pattern and the derived fields\<close>

lemma is_digit_cases:
  "is_digit c \<longleftrightarrow> 48 \<le> (of_char c :: nat) \<and> (of_char c :: nat) \<le> 57"
  unfolding is_digit_def by (cases c) auto

lemma is_upper_range:
  "is_upper c \<longleftrightarrow> 65 \<le> (of_char c :: nat) \<and> (of_char c :: nat) \<le> 90"
  unfolding is_upper_def by (cases c) auto

lemma digit_val_less: "is_digit c \<Longrightarrow> digit_val c < 10"
  by (auto simp: is_digit_cases digit_val_def)

lemma digit_not_space: "is_digit c \<Longrightarrow> \<not> is_space c"
  by (auto simp: is_digit_cases is_space_def)

lemma digit_not_sign: "is_digit c \<Longrightarrow> c \<noteq> CHR ''+'' \<and> c \<noteq> CHR ''-''"
  by (auto simp: is_digit_def)

lemma unit_regex_test_iff:
  "unit_regex_test str \<longleftrightarrow> (\<exists>a b c. str = [a, b, c] \<and> is_upper a \<and> is_digit b \<and> is_digit c)"
  unfolding unit_regex_test_def by (auto simp: list_all2_Cons1)


lemma is_binary64I:
  assumes "y = of_int n * 2 powi q" and "\<bar>n\<bar> < 2 ^ 53" and "- 1074 \<le> q" and "q \<le> 0"
  shows "is_binary64 y"
proof -
  have "\<bar>y\<bar> = of_int \<bar>n\<bar> * 2 powi q" unfolding assms(1) by (simp add: abs_mult)
  also have "\<dots> \<le> of_int \<bar>n\<bar> * 2 powi 0"
    using assms(4) by (intro mult_left_mono pow2_le) simp_all
  also have "\<dots> = of_int \<bar>n\<bar>" by simp
  also have "\<dots> < of_int (2 ^ 53)" using assms(2) by (simp only: of_int_less_iff)
  also have "\<dots> = 2 powi 53" by simp
  also have "\<dots> < 2 powi 1024" by (rule pow2_less) simp
  finally have "\<bar>y\<bar> < 2 powi 1024" .
  moreover from assms(2) have "\<bar>n\<bar> \<le> 2 ^ 53" by simp
  ultimately show ?thesis unfolding is_binary64_def using assms(1,3) by blast
qed

lemma Number_value_of_nat:
  assumes "n < 2 ^ 53"
  shows "Number_value (of_nat n) = Finite (of_nat n)"
proof -
  have "int n < int (2 ^ 53)" using assms by (simp only: of_nat_less_iff)
  then have "\<bar>int n\<bar> < 2 ^ 53" by simp
  then have "is_binary64 (of_int (int n))" by (rule is_binary64_of_int)
  then show ?thesis using Number_value_binary64_id[of "of_int (int n)"] by simp
qed

lemma parseInt10_two_digits:
  assumes "is_digit b" "is_digit c"
  shows "parseInt10 [b, c] = Finite (of_nat (10 * digit_val b + digit_val c))"
proof -
  have "10 * digit_val b + digit_val c < 100"
    using digit_val_less[OF assms(1)] digit_val_less[OF assms(2)] by arith
  then have "10 * digit_val b + digit_val c < 2 ^ 53" by simp
  then have nv: "Number_value (of_nat (10 * digit_val b + digit_val c))
      = Finite (of_nat (10 * digit_val b + digit_val c))" by (rule Number_value_of_nat)
  have "parseInt10 [b, c] = Number_value (of_nat (10 * digit_val b + digit_val c))"
    using assms digit_not_space[OF assms(1)] digit_not_sign[OF assms(1)]
    by (simp add: parseInt10_def trimStart_def digits_val_def strip_sign_def has_minus_def Let_def)
  with nv show ?thesis by simp
qed

lemma hoogte_enkel_deriveFields:
  "hoogte_enkel (deriveFields note m) =
     (if unit_regex_test (raw_unit note)
      then Some (num_times10 (parseInt10 (drop 1 (raw_unit note)))) else None)"
  by (simp add: deriveFields_def parseUnit_def raw_unit_def Let_def split: prod.split)

lemma hoogte_stack_deriveFields:
  "hoogte_stack (deriveFields note m) =
     (case hoogte_enkel (deriveFields note m) of
        None \<Rightarrow> None
      | Some h \<Rightarrow> Some (if num_le150 h then num_times2 h else h))"
  by (simp add: deriveFields_def parseUnit_def Let_def split: prod.split)

lemma aantal2_deriveFields:
  "aantal2 (deriveFields note m) =
     (case fst (parseAantal (raw_aantal note) []) of
        None \<Rightarrow> None
      | Some a \<Rightarrow>
          Some (if (case hoogte_enkel (deriveFields note m) of None \<Rightarrow> False | Some h \<Rightarrow> num_le150 h)
                then Math_round (num_half a) else Math_round a))"
  by (auto simp: deriveFields_def parseUnit_def raw_aantal_def Let_def split: prod.split option.split)

lemma warnings_deriveFields:
  "warnings (deriveFields note m) =
     snd (parseAantal (raw_aantal note) []) @
     (if unit_regex_test (raw_unit note) then []
      else [''Unit format invalid.'', ''Unit invalid; hoogte_enkel missing.''])"
  by (simp add: deriveFields_def parseUnit_def raw_aantal_def raw_unit_def Let_def split: prod.split)

lemma pallet_deriveFields:
  "pallet (deriveFields note m) =
     (if letter (fst (parseUnit (raw_unit note) [])) = ''M'' then ''BLOK'' else ''EURO'')"
  by (simp add: deriveFields_def parseUnit_def raw_unit_def Let_def split: prod.split)

lemma hoogte_enkel_finite:
  assumes "unit_regex_test u"
  shows "\<exists>k<100. parseInt10 (drop 1 u) = Finite (of_nat k) \<and> k = 10 * digit_val (u ! 1) + digit_val (u ! 2)"
proof -
  from assms obtain a b c where u: "u = [a, b, c]" and b: "is_digit b" and c: "is_digit c"
    by (auto simp: unit_regex_test_iff)
  have "10 * digit_val b + digit_val c < 100"
    using digit_val_less[OF b] digit_val_less[OF c] by arith
  then show ?thesis using parseInt10_two_digits[OF b c] u by simp
qed




lemma map_filter_Nil_iff: "List.map_filter f xs = [] \<longleftrightarrow> (\<forall>x\<in>set xs. f x = None)"
  by (induction xs) (auto simp: List.map_filter_simps split: option.split)

lemma set_map_filter: "set (List.map_filter f xs) = {v. \<exists>x\<in>set xs. f x = Some v}"
  by (induction xs) (auto simp: List.map_filter_simps split: option.split)

lemma map_filter_longest_prefix:
  assumes "prefix p u" and "f p = Some v"
    and "\<forall>q. prefix q u \<and> length p < length q \<longrightarrow> f q = None"
  shows "\<exists>rest. List.map_filter f (rev (prefixes u)) = v # rest"
  using assms
proof (induction u rule: rev_induct)
  case Nil
  then show ?case by (simp add: List.map_filter_simps)
next
  case (snoc x xs)
  show ?case
  proof (cases "p = xs @ [x]")
    case True
    with snoc.prems(2) show ?thesis by (simp add: List.map_filter_simps)
  next
    case False
    with snoc.prems(1) have pre: "prefix p xs" by (simp add: prefix_snoc)
    then have "length p < length (xs @ [x])" by (simp add: prefix_length_le le_imp_less_Suc)
    with snoc.prems(3) have none: "f (xs @ [x]) = None" by blast
    have "\<forall>q. prefix q xs \<and> length p < length q \<longrightarrow> f q = None"
      using snoc.prems(3) by (simp add: prefix_snoc)
    from snoc.IH[OF pre snoc.prems(2) this] none show ?thesis
      by (simp add: List.map_filter_simps)
  qed
qed


lemma num_neg_NaN: "num_neg v = NaN \<longleftrightarrow> v = NaN"
  by (cases v) simp_all

lemma StrDecimalLiteral_not_NaN: "StrDecimalLiteral p \<noteq> Some NaN"
  by (auto simp: StrDecimalLiteral_def StrUnsignedDecimalLiteral_def num_neg_NaN
      Number_value_not_NaN split: option.splits if_splits)

lemma StrDecimalLiteral_binary64:
  assumes "StrDecimalLiteral p = Some (Finite x)"
  shows "is_binary64 x"
proof -
  from assms obtain v where v: "StrUnsignedDecimalLiteral (strip_sign p) = Some v"
    and x: "Finite x = (if has_minus p then num_neg v else v)"
    by (auto simp: StrDecimalLiteral_def split: option.splits)
  from x obtain y where y: "v = Finite y" and xy: "x = y \<or> x = - y"
    by (cases v) (auto split: if_splits)
  from v y obtain m where "Number_value m = Finite y"
    by (auto simp: StrUnsignedDecimalLiteral_def split: if_splits)
  then have "is_binary64 y" by (rule Number_value_binary64)
  with xy show ?thesis using is_binary64_uminus by blast
qed

lemma decimal_value_Infinity: "decimal_value ''Infinity'' = None"
  by code_simp

lemma StrDecimalLiteral_None_iff:
  "StrDecimalLiteral s = None \<longleftrightarrow>
     strip_sign s \<noteq> ''Infinity'' \<and> decimal_value (strip_sign s) = None"
  by (auto simp: StrDecimalLiteral_def StrUnsignedDecimalLiteral_def split: option.splits)

lemma StrDecimalLiteral_unsigned:
  assumes "decimal_value (strip_sign s) = Some m" and "\<not> has_minus s" and "is_binary64 m"
  shows "StrDecimalLiteral s = Some (Finite m)"
proof -
  from assms(1) decimal_value_Infinity have "strip_sign s \<noteq> ''Infinity''" by auto
  with assms(1,2) have "StrDecimalLiteral s = Some (Number_value m)"
    by (simp add: StrDecimalLiteral_def StrUnsignedDecimalLiteral_def)
  with Number_value_binary64_id[OF assms(3)] show ?thesis by simp
qed

lemma all_prefixes_conv:
  "(\<forall>p. prefix p u \<longrightarrow> P p) \<longleftrightarrow> (\<forall>p\<in>set (prefixes u). P p)"
  "(\<forall>p. prefix p u \<and> Q p \<longrightarrow> P p) \<longleftrightarrow> (\<forall>p\<in>set (prefixes u). Q p \<longrightarrow> P p)"
  by auto

lemma parseFloat_NaN_iff:
  "parseFloat s = NaN \<longleftrightarrow> (\<forall>p. prefix p (trimStart s) \<longrightarrow> StrDecimalLiteral p = None)"
proof (cases "List.map_filter StrDecimalLiteral (rev (prefixes (trimStart s)))")
  case Nil
  then have "\<forall>p\<in>set (rev (prefixes (trimStart s))). StrDecimalLiteral p = None"
    by (simp only: map_filter_Nil_iff)
  then have "\<forall>p. prefix p (trimStart s) \<longrightarrow> StrDecimalLiteral p = None" by simp
  moreover have "parseFloat s = NaN" by (simp only: parseFloat_def Nil list.case)
  ultimately show ?thesis by simp
next
  case (Cons v vs)
  then have "v \<in> set (List.map_filter StrDecimalLiteral (rev (prefixes (trimStart s))))" by simp
  then obtain p where p: "prefix p (trimStart s)" "StrDecimalLiteral p = Some v"
    by (auto simp: set_map_filter)
  with StrDecimalLiteral_not_NaN[of p] have "v \<noteq> NaN" by auto
  with Cons p show ?thesis by (auto simp: parseFloat_def)
qed

lemma parseFloat_longest:
  assumes "prefix p (trimStart s)" and "StrDecimalLiteral p = Some v"
    and "\<forall>q. prefix q (trimStart s) \<and> length p < length q \<longrightarrow> StrDecimalLiteral q = None"
  shows "parseFloat s = v"
  using map_filter_longest_prefix[OF assms] by (auto simp: parseFloat_def)


lemma parseFloat_binary64:
  assumes "parseFloat s = Finite x"
  shows "is_binary64 x"
proof (cases "List.map_filter StrDecimalLiteral (rev (prefixes (trimStart s)))")
  case Nil
  with assms show ?thesis by (simp add: parseFloat_def)
next
  case (Cons v vs)
  with assms have v: "v = Finite x" by (simp add: parseFloat_def)
  from Cons have "v \<in> set (List.map_filter StrDecimalLiteral (rev (prefixes (trimStart s))))" by simp
  then obtain p where "StrDecimalLiteral p = Some v" by (auto simp: set_map_filter)
  with v show ?thesis using StrDecimalLiteral_binary64 by blast
qed

lemma parseAantal_binary64:
  assumes "fst (parseAantal str ws) = Some (Finite x)"
  shows "is_binary64 x"
  using assms parseFloat_binary64[of "replace_first CHR '','' CHR ''.'' str" x]
  by (auto simp: parseAantal_def Let_def split: if_splits)

subsection \<open>Quantity parsing\<close>

text \<open>
  Claim C1, as the code has it. For every raw quantity string, after trimming: if it is
  empty, the warning "Missing aantal." is recorded and the quantity is none. Otherwise the
  first comma is replaced by a dot and \<^verbatim>\<open>parseFloat\<close> reads the longest leading part that
  is a decimal literal (an optional sign, then digits with an optional fraction and
  exponent, or a dot and digits with an optional exponent, or the word Infinity),
  ignoring what follows it: if no leading part is a literal, the warning "Aantal is not a
  number." is recorded and the quantity is none; if there is one, the quantity is the
  numeric value of the longest one, a binary64 number or an infinity, and no warning is
  recorded.
\<close>

theorem parseAantal_longest_numeric_prefix:
  "(trim str = [] \<longrightarrow> parseAantal (trim str) ws = (None, ws @ [''Missing aantal.'']))
   \<and> (trim str \<noteq> [] \<and> (\<forall>p. prefix p (normalized_aantal str) \<longrightarrow> StrDecimalLiteral p = None)
        \<longrightarrow> parseAantal (trim str) ws = (None, ws @ [''Aantal is not a number.'']))
   \<and> (\<forall>p v. trim str \<noteq> [] \<and> prefix p (normalized_aantal str) \<and> StrDecimalLiteral p = Some v
          \<and> (\<forall>q. prefix q (normalized_aantal str) \<and> length p < length q \<longrightarrow> StrDecimalLiteral q = None)
        \<longrightarrow> parseAantal (trim str) ws = (Some v, ws))
   \<and> (\<forall>x. fst (parseAantal (trim str) ws) = Some (Finite x) \<longrightarrow> is_binary64 x)
   \<and> fst (parseAantal (trim str) ws) \<noteq> Some NaN"
proof (intro conjI allI impI)
  assume "trim str = []"
  then show "parseAantal (trim str) ws = (None, ws @ [''Missing aantal.''])"
    by (simp add: parseAantal_def)
next
  assume a: "trim str \<noteq> [] \<and> (\<forall>p. prefix p (normalized_aantal str) \<longrightarrow> StrDecimalLiteral p = None)"
  then have "parseFloat (replace_first CHR '','' CHR ''.'' (trim str)) = NaN"
    by (simp add: parseFloat_NaN_iff normalized_aantal_def)
  with a show "parseAantal (trim str) ws = (None, ws @ [''Aantal is not a number.''])"
    by (simp add: parseAantal_def)
next
  fix p v
  assume a: "trim str \<noteq> [] \<and> prefix p (normalized_aantal str) \<and> StrDecimalLiteral p = Some v
          \<and> (\<forall>q. prefix q (normalized_aantal str) \<and> length p < length q \<longrightarrow> StrDecimalLiteral q = None)"
  then have "parseFloat (replace_first CHR '','' CHR ''.'' (trim str)) = v"
    using parseFloat_longest[of p "replace_first CHR '','' CHR ''.'' (trim str)" v]
    by (simp add: normalized_aantal_def)
  moreover have "v \<noteq> NaN" using a StrDecimalLiteral_not_NaN[of p] by auto
  ultimately show "parseAantal (trim str) ws = (Some v, ws)"
    using a by (simp add: parseAantal_def)
next
  fix x assume "fst (parseAantal (trim str) ws) = Some (Finite x)"
  then show "is_binary64 x" by (rule parseAantal_binary64)
next
  show "fst (parseAantal (trim str) ws) \<noteq> Some NaN"
    by (simp add: parseAantal_def Let_def)
qed

text \<open>
  Claim C1 as stated fails: \<^verbatim>\<open>12abc\<close> is not a valid number, yet it is given the quantity
  12 and no warning.
\<close>

theorem parseAantal_trailing_text_counterexample:
  "StrDecimalLiteral (replace_first CHR '','' CHR ''.'' (trim ''12abc'')) = None
   \<and> parseAantal (trim ''12abc'') [] = (Some (Finite 12), [])"
proof -
  have t: "trim ''12abc'' = ''12abc''" by code_simp
  have r: "replace_first CHR '','' CHR ''.'' ''12abc'' = ''12abc''" by code_simp
  have ts: "trimStart ''12abc'' = ''12abc''" by code_simp
  have none: "StrDecimalLiteral ''12abc'' = None"
    unfolding StrDecimalLiteral_None_iff by code_simp
  have "is_binary64 12" by (rule is_binary64I[of _ 12 0]) simp_all
  moreover have "decimal_value (strip_sign ''12'') = Some 12" "\<not> has_minus ''12''" by code_simp+
  ultimately have v: "StrDecimalLiteral ''12'' = Some (Finite 12)"
    by (intro StrDecimalLiteral_unsigned)
  have longer: "\<forall>q. prefix q (trimStart ''12abc'') \<and> length ''12'' < length q \<longrightarrow> StrDecimalLiteral q = None"
    unfolding ts all_prefixes_conv StrDecimalLiteral_None_iff by code_simp
  have p: "prefix ''12'' (trimStart ''12abc'')" unfolding ts by simp
  have "parseFloat ''12abc'' = Finite 12" by (rule parseFloat_longest[OF p v longer])
  then have "parseAantal ''12abc'' [] = (Some (Finite 12), [])"
    by (simp add: parseAantal_def r)
  with none show ?thesis unfolding t r by (intro conjI)
qed

text \<open>The cases of claim C1 on the empty string, \<^verbatim>\<open>abc\<close>, \<^verbatim>\<open>12,5\<close>, \<^verbatim>\<open>,5\<close> and \<^verbatim>\<open>12abc\<close>.\<close>

theorem parseAantal_longest_numeric_prefix_witness:
  "parseAantal (trim '''') [] = (None, [''Missing aantal.''])
   \<and> parseAantal (trim ''abc'') [] = (None, [''Aantal is not a number.''])
   \<and> parseAantal (trim ''12,5'') [] = (Some (Finite (25 / 2)), [])
   \<and> parseAantal (trim '',5'') [] = (Some (Finite (1 / 2)), [])
   \<and> parseAantal (trim ''12abc'') [] = (Some (Finite 12), [])"
  (is "?A \<and> ?B \<and> ?C \<and> ?E \<and> ?D")
proof -
  have t0: "trim '''' = []" by code_simp
  have A: ?A using parseAantal_longest_numeric_prefix[of "''''" "[]"] t0 by simp
  have t1: "trim ''abc'' \<noteq> []" by code_simp
  have n1: "normalized_aantal ''abc'' = ''abc''" by code_simp
  have "\<forall>p. prefix p (normalized_aantal ''abc'') \<longrightarrow> StrDecimalLiteral p = None"
    unfolding n1 all_prefixes_conv StrDecimalLiteral_None_iff by code_simp
  with t1 have B: ?B using parseAantal_longest_numeric_prefix[of "''abc''" "[]"] by simp
  have t2: "trim ''12,5'' \<noteq> []" by code_simp
  have n2: "normalized_aantal ''12,5'' = ''12.5''" by code_simp
  have b2: "is_binary64 (25 / 2)" by (rule is_binary64I[of _ 25 "- 1"]) simp_all
  have "decimal_value (strip_sign ''12.5'') = Some (25 / 2)" "\<not> has_minus ''12.5''" by code_simp+
  with b2 have v2: "StrDecimalLiteral ''12.5'' = Some (Finite (25 / 2))"
    by (intro StrDecimalLiteral_unsigned)
  have l2: "\<forall>q. prefix q (normalized_aantal ''12,5'') \<and> length ''12.5'' < length q \<longrightarrow> StrDecimalLiteral q = None"
    unfolding n2 all_prefixes_conv StrDecimalLiteral_None_iff by code_simp
  have p2: "prefix ''12.5'' (normalized_aantal ''12,5'')" unfolding n2 by simp
  from parseAantal_longest_numeric_prefix[of "''12,5''" "[]"] t2 p2 v2 l2 have C: ?C by blast
  have t4: "trim '',5'' \<noteq> []" by code_simp
  have n4: "normalized_aantal '',5'' = ''.5''" by code_simp
  have b4: "is_binary64 (1 / 2)" by (rule is_binary64I[of _ 1 "- 1"]) simp_all
  have "decimal_value (strip_sign ''.5'') = Some (1 / 2)" "\<not> has_minus ''.5''" by code_simp+
  with b4 have v4: "StrDecimalLiteral ''.5'' = Some (Finite (1 / 2))"
    by (intro StrDecimalLiteral_unsigned)
  have l4: "\<forall>q. prefix q (normalized_aantal '',5'') \<and> length ''.5'' < length q \<longrightarrow> StrDecimalLiteral q = None"
    unfolding n4 all_prefixes_conv StrDecimalLiteral_None_iff by code_simp
  have p4: "prefix ''.5'' (normalized_aantal '',5'')" unfolding n4 by simp
  from parseAantal_longest_numeric_prefix[of "'',5''" "[]"] t4 p4 v4 l4 have E: ?E by blast
  have t3: "trim ''12abc'' \<noteq> []" by code_simp
  have n3: "normalized_aantal ''12abc'' = ''12abc''" by code_simp
  have b3: "is_binary64 12" by (rule is_binary64I[of _ 12 0]) simp_all
  have "decimal_value (strip_sign ''12'') = Some 12" "\<not> has_minus ''12''" by code_simp+
  with b3 have v3: "StrDecimalLiteral ''12'' = Some (Finite 12)"
    by (intro StrDecimalLiteral_unsigned)
  have p3: "prefix ''12'' (normalized_aantal ''12abc'')" unfolding n3 by simp
  have l3: "\<forall>q. prefix q (normalized_aantal ''12abc'') \<and> length ''12'' < length q \<longrightarrow> StrDecimalLiteral q = None"
    unfolding n3 all_prefixes_conv StrDecimalLiteral_None_iff by code_simp
  from parseAantal_longest_numeric_prefix[of "''12abc''" "[]"] t3 p3 v3 l3 have D: ?D by blast
  from A B C E D show ?thesis by (intro conjI)
qed

lemma floor_half_up: "nearest_integer_half_up x \<lfloor>x + 1 / 2\<rfloor>"
  unfolding nearest_integer_half_up_def by linarith

lemma nearest_integer_half_up_unique:
  "nearest_integer_half_up x n \<Longrightarrow> nearest_integer_half_up x m \<Longrightarrow> n = m"
  unfolding nearest_integer_half_up_def by linarith


lemma hoogte_enkel_valid:
  assumes "unit_regex_test (raw_unit note)"
  shows "\<exists>k<100. k = 10 * digit_val (raw_unit note ! 1) + digit_val (raw_unit note ! 2)
           \<and> hoogte_enkel (deriveFields note m) = Some (Finite (of_nat (k * 10)))"
proof -
  from hoogte_enkel_finite[OF assms] obtain k where k: "k < 100"
    "parseInt10 (drop 1 (raw_unit note)) = Finite (of_nat k)"
    "k = 10 * digit_val (raw_unit note ! 1) + digit_val (raw_unit note ! 2)" by blast
  from k(1) have "k * 10 < 2 ^ 53" by simp
  then have "Number_value (of_nat (k * 10)) = Finite (of_nat (k * 10))" by (rule Number_value_of_nat)
  then have "num_times10 (Finite (of_nat k)) = Finite (of_nat (k * 10))" by simp
  with assms k show ?thesis by (auto simp: hoogte_enkel_deriveFields)
qed

lemma hoogte_enkel_cases:
  "hoogte_enkel (deriveFields note m) = None
   \<or> (\<exists>k<100. hoogte_enkel (deriveFields note m) = Some (Finite (of_nat (k * 10))))"
proof (cases "unit_regex_test (raw_unit note)")
  case True
  from hoogte_enkel_valid[OF True] show ?thesis by blast
next
  case False
  then show ?thesis by (simp add: hoogte_enkel_deriveFields)
qed

lemma short_tier_iff:
  "(case hoogte_enkel (deriveFields note m) of None \<Rightarrow> False | Some h \<Rightarrow> num_le150 h)
   \<longleftrightarrow> (\<exists>h. hoogte_enkel (deriveFields note m) = Some (Finite h) \<and> h \<le> 150)"
  using hoogte_enkel_cases[of "note" m] by auto

text \<open>Halving a binary64 number and rounding the half to an integer gives the integer
  nearest to the exact half: the half is exact unless the number is tiny, and then both
  round to 0.\<close>

lemma Math_round_half:
  assumes "is_binary64 x"
  shows "Math_round (num_half (Finite x)) = Finite (of_int \<lfloor>x / 2 + 1 / 2\<rfloor>)"
proof (cases "1 / 2 < \<bar>x\<bar>")
  case True
  from is_binary64_half[OF assms True] have "Number_value (x / 2) = Finite (x / 2)"
    by (rule Number_value_binary64_id)
  then show ?thesis by simp
next
  case False
  then have "\<bar>x / 2\<bar> \<le> 1 / 4" by simp
  from Number_value_small[OF this] obtain y where y: "Number_value (x / 2) = Finite y" "\<bar>y\<bar> \<le> 1 / 4"
    by blast
  from y(2) have "\<lfloor>y + 1 / 2\<rfloor> = 0" by linarith
  moreover from False have "\<lfloor>x / 2 + 1 / 2\<rfloor> = 0" by linarith
  ultimately show ?thesis using y(1) by simp
qed

lemma parsed_quantity_binary64: "parsed_quantity note = Some (Finite x) \<Longrightarrow> is_binary64 x"
  unfolding parsed_quantity_def by (rule parseAantal_binary64)

lemma parsed_quantity_not_NaN: "parsed_quantity note \<noteq> Some NaN"
  by (simp add: parsed_quantity_def parseAantal_def Let_def)

subsection \<open>Adjusted quantity\<close>

text \<open>
  Claim C3, as the code has it. For every note: the adjusted quantity is none if the
  parsed quantity is none. If the parsed quantity is a finite number: when the single
  height is known and at most 150 the adjusted quantity is the quantity divided by 2,
  rounded to the nearest integer, half up; in every other case it is the quantity rounded
  to the nearest integer, half up. If the parsed quantity is an infinity (read from the
  word Infinity, or from a literal too large for binary64), the adjusted quantity is that
  infinity. The parsed quantity is never NaN.
\<close>

theorem adjusted_quantity_rounding:
  "(parsed_quantity note = None \<longrightarrow> aantal2 (deriveFields note m) = None)
   \<and> (\<forall>x. parsed_quantity note = Some (Finite x)
            \<and> (\<exists>h. hoogte_enkel (deriveFields note m) = Some (Finite h) \<and> h \<le> 150)
        \<longrightarrow> (\<exists>n. aantal2 (deriveFields note m) = Some (Finite (of_int n))
                  \<and> nearest_integer_half_up (x / 2) n))
   \<and> (\<forall>x. parsed_quantity note = Some (Finite x)
            \<and> \<not> (\<exists>h. hoogte_enkel (deriveFields note m) = Some (Finite h) \<and> h \<le> 150)
        \<longrightarrow> (\<exists>n. aantal2 (deriveFields note m) = Some (Finite (of_int n))
                  \<and> nearest_integer_half_up x n))
   \<and> (\<forall>q. parsed_quantity note = Some q \<and> (q = Infinity \<or> q = NegInfinity)
        \<longrightarrow> aantal2 (deriveFields note m) = Some q)
   \<and> parsed_quantity note \<noteq> Some NaN"
proof (intro conjI allI impI)
  assume "parsed_quantity note = None"
  then show "aantal2 (deriveFields note m) = None"
    by (simp add: aantal2_deriveFields parsed_quantity_def)
next
  fix x
  assume a: "parsed_quantity note = Some (Finite x)
            \<and> (\<exists>h. hoogte_enkel (deriveFields note m) = Some (Finite h) \<and> h \<le> 150)"
  then have short: "case hoogte_enkel (deriveFields note m) of None \<Rightarrow> False | Some h \<Rightarrow> num_le150 h"
    using short_tier_iff[of "note" m] by blast
  from a have b: "is_binary64 x" using parsed_quantity_binary64 by blast
  from a have "fst (parseAantal (raw_aantal note) []) = Some (Finite x)"
    by (simp add: parsed_quantity_def)
  with short have "aantal2 (deriveFields note m) = Some (Math_round (num_half (Finite x)))"
    by (simp add: aantal2_deriveFields[of "note" m])
  then have "aantal2 (deriveFields note m) = Some (Finite (of_int \<lfloor>x / 2 + 1 / 2\<rfloor>))"
    by (simp only: Math_round_half[OF b])
  then show "\<exists>n. aantal2 (deriveFields note m) = Some (Finite (of_int n))
                  \<and> nearest_integer_half_up (x / 2) n"
    using floor_half_up[of "x / 2"] by blast
next
  fix x
  assume a: "parsed_quantity note = Some (Finite x)
            \<and> \<not> (\<exists>h. hoogte_enkel (deriveFields note m) = Some (Finite h) \<and> h \<le> 150)"
  then have tall: "\<not> (case hoogte_enkel (deriveFields note m) of None \<Rightarrow> False | Some h \<Rightarrow> num_le150 h)"
    using short_tier_iff[of "note" m] by blast
  from a have "fst (parseAantal (raw_aantal note) []) = Some (Finite x)"
    by (simp add: parsed_quantity_def)
  with tall have "aantal2 (deriveFields note m) = Some (Finite (of_int \<lfloor>x + 1 / 2\<rfloor>))"
    by (simp add: aantal2_deriveFields[of "note" m])
  then show "\<exists>n. aantal2 (deriveFields note m) = Some (Finite (of_int n))
                  \<and> nearest_integer_half_up x n"
    using floor_half_up[of x] by blast
next
  fix q
  assume a: "parsed_quantity note = Some q \<and> (q = Infinity \<or> q = NegInfinity)"
  then show "aantal2 (deriveFields note m) = Some q"
    by (auto simp: aantal2_deriveFields[of "note" m] parsed_quantity_def)
next
  show "parsed_quantity note \<noteq> Some NaN" by (rule parsed_quantity_not_NaN)
qed

subsection \<open>Evaluating the derivation on a given note\<close>

lemma parseAantal_whole:
  assumes "str \<noteq> []" and "trimStart (replace_first CHR '','' CHR ''.'' str) = u"
    and "StrDecimalLiteral u = Some v"
  shows "parseAantal str ws = (Some v, ws)"
proof -
  have p: "prefix u (trimStart (replace_first CHR '','' CHR ''.'' str))" by (simp add: assms(2))
  have l: "\<forall>q. prefix q (trimStart (replace_first CHR '','' CHR ''.'' str)) \<and> length u < length q
             \<longrightarrow> StrDecimalLiteral q = None"
    unfolding assms(2) using prefix_length_le by fastforce
  have "parseFloat (replace_first CHR '','' CHR ''.'' str) = v"
    by (rule parseFloat_longest[OF p assms(3) l])
  moreover have "v \<noteq> NaN" using assms(3) StrDecimalLiteral_not_NaN[of u] by auto
  ultimately show ?thesis using assms(1) by (simp add: parseAantal_def)
qed

lemma StrDecimalLiteral_rounded:
  assumes "decimal_value (strip_sign s) = Some x" and "\<not> has_minus s" and "Number_value x = v"
  shows "StrDecimalLiteral s = Some v"
proof -
  from assms(1) decimal_value_Infinity have "strip_sign s \<noteq> ''Infinity''" by auto
  with assms show ?thesis by (simp add: StrDecimalLiteral_def StrUnsignedDecimalLiteral_def)
qed

lemma StrDecimalLiteral_overflow:
  assumes "decimal_value (strip_sign s) = Some x" and "\<not> has_minus s" and "2 powi 1024 \<le> x"
  shows "StrDecimalLiteral s = Some Infinity"
proof -
  from assms(1) decimal_value_Infinity have "strip_sign s \<noteq> ''Infinity''" by auto
  with assms(1,2) have "StrDecimalLiteral s = Some (Number_value x)"
    by (simp add: StrDecimalLiteral_def StrUnsignedDecimalLiteral_def)
  moreover from assms(3) pow2_pos[of 1024] have "0 < x" by linarith
  then have "Number_value x = Infinity" using Number_value_overflow[of x] assms(3) by simp
  ultimately show ?thesis by simp
qed

lemma StrDecimalLiteral_Infinity: "StrDecimalLiteral ''Infinity'' = Some Infinity"
  by (simp add: StrDecimalLiteral_def StrUnsignedDecimalLiteral_def strip_sign_def has_minus_def)

lemma aantal2_infinite:
  assumes "parsed_quantity note = Some Infinity"
  shows "aantal2 (deriveFields note m) = Some Infinity"
  using assms by (simp add: aantal2_deriveFields[of "note" m] parsed_quantity_def)

lemma hoogte_enkel_three:
  assumes "raw_unit note = [a, b, c]" and "is_upper a" and "is_digit b" and "is_digit c"
  shows "hoogte_enkel (deriveFields note m) = Some (Finite (of_nat ((10 * digit_val b + digit_val c) * 10)))"
proof -
  from assms have "unit_regex_test (raw_unit note)" by (simp add: unit_regex_test_iff)
  from hoogte_enkel_valid[OF this, of m] show ?thesis by (auto simp: assms(1))
qed

lemma hoogte_enkel_invalid:
  "\<not> unit_regex_test (raw_unit note) \<Longrightarrow> hoogte_enkel (deriveFields note m) = None"
  by (simp add: hoogte_enkel_deriveFields)

text \<open>
  Claim C3 as stated fails: the quantities \<^verbatim>\<open>2e308\<close> and \<^verbatim>\<open>Infinity\<close> are parsed to
  infinity, and the adjusted quantity is then infinity, not an integer.
\<close>

theorem adjusted_quantity_infinite_counterexample:
  "parsed_quantity \<lparr>n_datum = Some ''01-01-2024'', n_aantal = Some ''2e308'', n_unit = Some ''E28''\<rparr>
     = Some Infinity
   \<and> aantal2 (deriveFields \<lparr>n_datum = Some ''01-01-2024'', n_aantal = Some ''2e308'', n_unit = Some ''E28''\<rparr>
         \<lparr>fileName = ''test.pdf'', fileIndex = 0, pageIndex = 1\<rparr>) = Some Infinity
   \<and> parsed_quantity \<lparr>n_datum = Some ''01-01-2024'', n_aantal = Some ''Infinity'', n_unit = Some ''E15''\<rparr>
     = Some Infinity
   \<and> aantal2 (deriveFields \<lparr>n_datum = Some ''01-01-2024'', n_aantal = Some ''Infinity'', n_unit = Some ''E15''\<rparr>
         \<lparr>fileName = ''test.pdf'', fileIndex = 0, pageIndex = 1\<rparr>) = Some Infinity"
  (is "?q1 \<and> ?a1 \<and> ?q2 \<and> ?a2")
proof -
  let ?n1 = "\<lparr>n_datum = Some ''01-01-2024'', n_aantal = Some ''2e308'', n_unit = Some ''E28''\<rparr>"
  let ?n2 = "\<lparr>n_datum = Some ''01-01-2024'', n_aantal = Some ''Infinity'', n_unit = Some ''E15''\<rparr>"
  have r1: "raw_aantal ?n1 = ''2e308''" by code_simp
  have u1: "trimStart (replace_first CHR '','' CHR ''.'' ''2e308'') = ''2e308''" by code_simp
  have d1: "decimal_value (strip_sign ''2e308'') = Some (2 * 10 ^ 308)" "\<not> has_minus ''2e308''"
    by code_simp+
  have big: "(2::rat) powi 1024 \<le> 2 * 10 ^ 308" by simp
  have v1: "StrDecimalLiteral ''2e308'' = Some Infinity"
    by (rule StrDecimalLiteral_overflow[OF d1 big])
  have q1: ?q1 unfolding parsed_quantity_def r1
    using parseAantal_whole[OF _ u1 v1, of "[]"] by simp
  have r2: "raw_aantal ?n2 = ''Infinity''" by code_simp
  have u2: "trimStart (replace_first CHR '','' CHR ''.'' ''Infinity'') = ''Infinity''" by code_simp
  have q2: ?q2 unfolding parsed_quantity_def r2
    using parseAantal_whole[OF _ u2 StrDecimalLiteral_Infinity, of "[]"] by simp
  from q1 have a1: ?a1 by (rule aantal2_infinite)
  from q2 have a2: ?a2 by (rule aantal2_infinite)
  from q1 a1 q2 a2 show ?thesis by (intro conjI)
qed

text \<open>The cases of claim C3 on the notes E15 with 9, E2X with 7, E15 without a quantity,
  E28 with Infinity, and E15 with 2.9999999999999999, which is the binary64 number 3.\<close>

theorem adjusted_quantity_rounding_witness:
  "parsed_quantity \<lparr>n_datum = Some ''01-01-2024'', n_aantal = Some ''9'', n_unit = Some ''E15''\<rparr> = Some (Finite 9)
   \<and> hoogte_enkel (deriveFields \<lparr>n_datum = Some ''01-01-2024'', n_aantal = Some ''9'', n_unit = Some ''E15''\<rparr>
         \<lparr>fileName = ''test.pdf'', fileIndex = 0, pageIndex = 1\<rparr>) = Some (Finite 150)
   \<and> aantal2 (deriveFields \<lparr>n_datum = Some ''01-01-2024'', n_aantal = Some ''9'', n_unit = Some ''E15''\<rparr>
         \<lparr>fileName = ''test.pdf'', fileIndex = 0, pageIndex = 1\<rparr>) = Some (Finite 5)
   \<and> parsed_quantity \<lparr>n_datum = Some ''01-01-2024'', n_aantal = Some ''7'', n_unit = Some ''E2X''\<rparr> = Some (Finite 7)
   \<and> hoogte_enkel (deriveFields \<lparr>n_datum = Some ''01-01-2024'', n_aantal = Some ''7'', n_unit = Some ''E2X''\<rparr>
         \<lparr>fileName = ''test.pdf'', fileIndex = 0, pageIndex = 1\<rparr>) = None
   \<and> aantal2 (deriveFields \<lparr>n_datum = Some ''01-01-2024'', n_aantal = Some ''7'', n_unit = Some ''E2X''\<rparr>
         \<lparr>fileName = ''test.pdf'', fileIndex = 0, pageIndex = 1\<rparr>) = Some (Finite 7)
   \<and> parsed_quantity \<lparr>n_datum = None, n_aantal = None, n_unit = Some ''E15''\<rparr> = None
   \<and> aantal2 (deriveFields \<lparr>n_datum = None, n_aantal = None, n_unit = Some ''E15''\<rparr>
         \<lparr>fileName = ''test.pdf'', fileIndex = 0, pageIndex = 1\<rparr>) = None
   \<and> aantal2 (deriveFields \<lparr>n_datum = None, n_aantal = Some ''Infinity'', n_unit = Some ''E28''\<rparr>
         \<lparr>fileName = ''test.pdf'', fileIndex = 0, pageIndex = 1\<rparr>) = Some Infinity
   \<and> parsed_quantity \<lparr>n_datum = None, n_aantal = Some ''2.9999999999999999'', n_unit = Some ''E15''\<rparr>
         = Some (Finite 3)
   \<and> aantal2 (deriveFields \<lparr>n_datum = None, n_aantal = Some ''2.9999999999999999'', n_unit = Some ''E15''\<rparr>
         \<lparr>fileName = ''test.pdf'', fileIndex = 0, pageIndex = 1\<rparr>) = Some (Finite 2)"
  (is "?q1 \<and> ?h1 \<and> ?a1 \<and> ?q2 \<and> ?h2 \<and> ?a2 \<and> ?q3 \<and> ?a3 \<and> ?a4 \<and> ?q5 \<and> ?a5")
proof -
  let ?m = "\<lparr>fileName = ''test.pdf'', fileIndex = 0, pageIndex = 1\<rparr>"
  let ?n1 = "\<lparr>n_datum = Some ''01-01-2024'', n_aantal = Some ''9'', n_unit = Some ''E15''\<rparr>"
  let ?n2 = "\<lparr>n_datum = Some ''01-01-2024'', n_aantal = Some ''7'', n_unit = Some ''E2X''\<rparr>"
  let ?n3 = "\<lparr>n_datum = None, n_aantal = None, n_unit = Some ''E15''\<rparr>"
  let ?n4 = "\<lparr>n_datum = None, n_aantal = Some ''Infinity'', n_unit = Some ''E28''\<rparr>"
  let ?n5 = "\<lparr>n_datum = None, n_aantal = Some ''2.9999999999999999'', n_unit = Some ''E15''\<rparr>"
  note c1 = adjusted_quantity_rounding[of ?n1 ?m]
  note c2 = adjusted_quantity_rounding[of ?n2 ?m]
  note c3 = adjusted_quantity_rounding[of ?n3 ?m]
  note c4 = adjusted_quantity_rounding[of ?n4 ?m]
  note c5 = adjusted_quantity_rounding[of ?n5 ?m]
  have r1: "raw_aantal ?n1 = ''9''" by code_simp
  have u1: "trimStart (replace_first CHR '','' CHR ''.'' ''9'') = ''9''" by code_simp
  have "decimal_value (strip_sign ''9'') = Some 9" "\<not> has_minus ''9''" by code_simp+
  moreover have "is_binary64 9" by (rule is_binary64I[of _ 9 0]) simp_all
  ultimately have v1: "StrDecimalLiteral ''9'' = Some (Finite 9)" by (intro StrDecimalLiteral_unsigned)
  have q1: ?q1 unfolding parsed_quantity_def r1
    using parseAantal_whole[OF _ u1 v1, of "[]"] by simp
  have ru1: "raw_unit ?n1 = ''E15''" by code_simp
  have cl: "is_upper CHR ''E''" "is_digit CHR ''1''" "is_digit CHR ''5''" by code_simp+
  from hoogte_enkel_three[OF ru1 cl, of ?m] have h1: ?h1 by (simp add: digit_val_def)
  from c1 q1 h1 obtain n where n: "aantal2 (deriveFields ?n1 ?m) = Some (Finite (of_int n))"
      "nearest_integer_half_up (9 / 2) n" by auto
  have "nearest_integer_half_up (9 / 2) 5" by (simp add: nearest_integer_half_up_def)
  with n(2) have "n = 5" by (rule nearest_integer_half_up_unique)
  with n(1) have a1: ?a1 by simp
  have r2: "raw_aantal ?n2 = ''7''" by code_simp
  have u2: "trimStart (replace_first CHR '','' CHR ''.'' ''7'') = ''7''" by code_simp
  have "decimal_value (strip_sign ''7'') = Some 7" "\<not> has_minus ''7''" by code_simp+
  moreover have "is_binary64 7" by (rule is_binary64I[of _ 7 0]) simp_all
  ultimately have v2: "StrDecimalLiteral ''7'' = Some (Finite 7)" by (intro StrDecimalLiteral_unsigned)
  have q2: ?q2 unfolding parsed_quantity_def r2
    using parseAantal_whole[OF _ u2 v2, of "[]"] by simp
  have "\<not> unit_regex_test (raw_unit ?n2)" by code_simp
  then have h2: ?h2 by (rule hoogte_enkel_invalid)
  from c2 q2 h2 obtain k where k: "aantal2 (deriveFields ?n2 ?m) = Some (Finite (of_int k))"
      "nearest_integer_half_up 7 k" by auto
  have "nearest_integer_half_up 7 7" by (simp add: nearest_integer_half_up_def)
  with k(2) have "k = 7" by (rule nearest_integer_half_up_unique)
  with k(1) have a2: ?a2 by simp
  have r3: "raw_aantal ?n3 = []" by code_simp
  have q3: ?q3 unfolding parsed_quantity_def r3 by (simp add: parseAantal_def)
  from c3 q3 have a3: ?a3 by blast
  have r4: "raw_aantal ?n4 = ''Infinity''" by code_simp
  have u4: "trimStart (replace_first CHR '','' CHR ''.'' ''Infinity'') = ''Infinity''" by code_simp
  have q4: "parsed_quantity ?n4 = Some Infinity" unfolding parsed_quantity_def r4
    using parseAantal_whole[OF _ u4 StrDecimalLiteral_Infinity, of "[]"] by simp
  from c4 q4 have a4: ?a4 by blast
  have r5: "raw_aantal ?n5 = ''2.9999999999999999''" by code_simp
  have u5: "trimStart (replace_first CHR '','' CHR ''.'' ''2.9999999999999999'') = ''2.9999999999999999''"
    by code_simp
  have d5: "decimal_value (strip_sign ''2.9999999999999999'') = Some (29999999999999999 / 10 ^ 16)"
    "\<not> has_minus ''2.9999999999999999''" by code_simp+
  have v5: "StrDecimalLiteral ''2.9999999999999999'' = Some (Finite 3)"
    by (rule StrDecimalLiteral_rounded[OF d5 Number_value_near_3])
  have q5: ?q5 unfolding parsed_quantity_def r5
    using parseAantal_whole[OF _ u5 v5, of "[]"] by simp
  have ru5: "raw_unit ?n5 = ''E15''" by code_simp
  from hoogte_enkel_three[OF ru5 cl, of ?m]
  have h5: "hoogte_enkel (deriveFields ?n5 ?m) = Some (Finite 150)" by (simp add: digit_val_def)
  from c5 q5 h5 obtain j where j: "aantal2 (deriveFields ?n5 ?m) = Some (Finite (of_int j))"
      "nearest_integer_half_up (3 / 2) j" by auto
  have "nearest_integer_half_up (3 / 2) 2" by (simp add: nearest_integer_half_up_def)
  with j(2) have "j = 2" by (rule nearest_integer_half_up_unique)
  with j(1) have a5: ?a5 by simp
  from q1 h1 a1 q2 h2 a2 q3 a3 a4 q5 a5 show ?thesis by (intro conjI)
qed

lemma parseAantal_warnings_cases:
  "snd (parseAantal str []) = [] \<or> snd (parseAantal str []) = [''Missing aantal.'']
   \<or> snd (parseAantal str []) = [''Aantal is not a number.'']"
  by (simp add: parseAantal_def Let_def)

lemma valid_parseUnit: "valid (fst (parseUnit str ws)) = unit_regex_test str"
  by (simp add: parseUnit_def Let_def)

lemma digits_parseUnit:
  "digits (fst (parseUnit str ws)) = (if unit_regex_test str then Some (parseInt10 (drop 1 str)) else None)"
  by (simp add: parseUnit_def Let_def)

lemma letter_parseUnit: "letter (fst (parseUnit str ws)) = take 1 str"
  by (cases str) (simp_all add: parseUnit_def Let_def)

lemma snd_parseUnit:
  "snd (parseUnit str ws) = (if unit_regex_test str then ws else ws @ [''Unit format invalid.''])"
  by (simp add: parseUnit_def Let_def)

subsection \<open>Single and stacked height\<close>

text \<open>
  Claim C4. For every note: when the unit is valid, the single height is the unit's digits
  times 10 (and the warning about a missing single height is not recorded); when the unit
  is invalid, the single height is none and the warning "Unit invalid; hoogte_enkel
  missing." is recorded after "Unit format invalid.". The stacked height is none whenever
  the single height is none, twice the single height when that is at most 150, and the
  single height itself when it is above 150.
\<close>

theorem single_and_stacked_height:
  "(valid (fst (parseUnit (raw_unit note) [])) \<longrightarrow>
      (\<exists>k<100. digits (fst (parseUnit (raw_unit note) [])) = Some (Finite (of_nat k))
          \<and> hoogte_enkel (deriveFields note m) = Some (Finite (of_nat (k * 10))))
      \<and> ''Unit invalid; hoogte_enkel missing.'' \<notin> set (warnings (deriveFields note m)))
   \<and> (\<not> valid (fst (parseUnit (raw_unit note) [])) \<longrightarrow>
        hoogte_enkel (deriveFields note m) = None
        \<and> warnings (deriveFields note m) =
            snd (parseAantal (raw_aantal note) [])
              @ [''Unit format invalid.'', ''Unit invalid; hoogte_enkel missing.''])
   \<and> (hoogte_enkel (deriveFields note m) = None \<longrightarrow> hoogte_stack (deriveFields note m) = None)
   \<and> (\<forall>h. hoogte_enkel (deriveFields note m) = Some (Finite h) \<and> h \<le> 150 \<longrightarrow>
          hoogte_stack (deriveFields note m) = Some (Finite (h * 2)))
   \<and> (\<forall>h. hoogte_enkel (deriveFields note m) = Some (Finite h) \<and> 150 < h \<longrightarrow>
          hoogte_stack (deriveFields note m) = Some (Finite h))
   \<and> (hoogte_enkel (deriveFields note m) = None
        \<or> (\<exists>h. hoogte_enkel (deriveFields note m) = Some (Finite h)))"
proof (intro conjI allI impI)
  assume v: "valid (fst (parseUnit (raw_unit note) []))"
  then have t: "unit_regex_test (raw_unit note)" by (simp add: valid_parseUnit)
  from hoogte_enkel_finite[OF t] obtain k where k: "k < 100"
    "parseInt10 (drop 1 (raw_unit note)) = Finite (of_nat k)"
    "k = 10 * digit_val (raw_unit note ! 1) + digit_val (raw_unit note ! 2)" by blast
  from hoogte_enkel_valid[OF t, of m] k(3)
  have h: "hoogte_enkel (deriveFields note m) = Some (Finite (of_nat (k * 10)))" by auto
  from t k(2) have d: "digits (fst (parseUnit (raw_unit note) [])) = Some (Finite (of_nat k))"
    by (simp add: digits_parseUnit)
  from k(1) d h show "\<exists>k<100. digits (fst (parseUnit (raw_unit note) [])) = Some (Finite (of_nat k))
          \<and> hoogte_enkel (deriveFields note m) = Some (Finite (of_nat (k * 10)))"
    by blast
  from t parseAantal_warnings_cases[of "raw_aantal note"]
  show "''Unit invalid; hoogte_enkel missing.'' \<notin> set (warnings (deriveFields note m))"
    by (auto simp: warnings_deriveFields)
next
  assume "\<not> valid (fst (parseUnit (raw_unit note) []))"
  then have t: "\<not> unit_regex_test (raw_unit note)" by (simp add: valid_parseUnit)
  then show "hoogte_enkel (deriveFields note m) = None"
    by (simp add: hoogte_enkel_deriveFields)
  from t show "warnings (deriveFields note m) =
            snd (parseAantal (raw_aantal note) [])
              @ [''Unit format invalid.'', ''Unit invalid; hoogte_enkel missing.'']"
    by (simp add: warnings_deriveFields)
next
  assume "hoogte_enkel (deriveFields note m) = None"
  then show "hoogte_stack (deriveFields note m) = None"
    by (simp add: hoogte_stack_deriveFields[of "note" m])
next
  fix h assume a: "hoogte_enkel (deriveFields note m) = Some (Finite h) \<and> h \<le> 150"
  with hoogte_enkel_cases[of "note" m] obtain k where k: "k < 100" "h = of_nat (k * 10)" by auto
  from k(1) have "k * 10 * 2 < 2 ^ 53" by simp
  then have "Number_value (of_nat (k * 10 * 2)) = Finite (of_nat (k * 10 * 2))"
    by (rule Number_value_of_nat)
  then have "num_times2 (Finite h) = Finite (h * 2)" unfolding k(2) by simp
  with a show "hoogte_stack (deriveFields note m) = Some (Finite (h * 2))"
    by (simp add: hoogte_stack_deriveFields[of "note" m])
next
  fix h assume "hoogte_enkel (deriveFields note m) = Some (Finite h) \<and> 150 < h"
  then show "hoogte_stack (deriveFields note m) = Some (Finite h)"
    by (simp add: hoogte_stack_deriveFields[of "note" m])
next
  show "hoogte_enkel (deriveFields note m) = None
        \<or> (\<exists>h. hoogte_enkel (deriveFields note m) = Some (Finite h))"
    using hoogte_enkel_cases[of "note" m] by blast
qed

subsection \<open>Unit parsing\<close>

text \<open>
  Claim C5. For every raw unit string, after trimming: the unit is valid if and only if
  it is exactly one uppercase ASCII letter followed by exactly two digits; the warning
  "Unit format invalid." is recorded exactly when it is invalid; the digits value is the
  integer the last two characters denote when it is valid, and none otherwise.
\<close>

theorem parseUnit_valid_digits:
  "(valid (fst (parseUnit (trim str) ws)) \<longleftrightarrow>
      (\<exists>a b c. trim str = [a, b, c]
         \<and> 65 \<le> (of_char a :: nat) \<and> (of_char a :: nat) \<le> 90
         \<and> 48 \<le> (of_char b :: nat) \<and> (of_char b :: nat) \<le> 57
         \<and> 48 \<le> (of_char c :: nat) \<and> (of_char c :: nat) \<le> 57))
   \<and> snd (parseUnit (trim str) ws) =
        (if valid (fst (parseUnit (trim str) ws)) then ws else ws @ [''Unit format invalid.''])
   \<and> digits (fst (parseUnit (trim str) ws)) =
        (if valid (fst (parseUnit (trim str) ws))
         then Some (Finite (of_nat (10 * (of_char (trim str ! 1) - 48) + (of_char (trim str ! 2) - 48))))
         else None)"
proof (intro conjI)
  show "valid (fst (parseUnit (trim str) ws)) \<longleftrightarrow>
      (\<exists>a b c. trim str = [a, b, c]
         \<and> 65 \<le> (of_char a :: nat) \<and> (of_char a :: nat) \<le> 90
         \<and> 48 \<le> (of_char b :: nat) \<and> (of_char b :: nat) \<le> 57
         \<and> 48 \<le> (of_char c :: nat) \<and> (of_char c :: nat) \<le> 57)"
    by (simp add: valid_parseUnit unit_regex_test_iff is_upper_range is_digit_cases)
  show "snd (parseUnit (trim str) ws) =
        (if valid (fst (parseUnit (trim str) ws)) then ws else ws @ [''Unit format invalid.''])"
    by (simp add: valid_parseUnit snd_parseUnit)
  show "digits (fst (parseUnit (trim str) ws)) =
        (if valid (fst (parseUnit (trim str) ws))
         then Some (Finite (of_nat (10 * (of_char (trim str ! 1) - 48) + (of_char (trim str ! 2) - 48))))
         else None)"
  proof (cases "unit_regex_test (trim str)")
    case True
    from hoogte_enkel_finite[OF True] show ?thesis
      using True by (auto simp: valid_parseUnit digits_parseUnit digit_val_def)
  next
    case False
    then show ?thesis by (simp add: valid_parseUnit digits_parseUnit)
  qed
qed

subsection \<open>Unit letter and pallet classification\<close>

text \<open>
  Claim C6. For every note: the unit letter is the first character of the trimmed raw unit
  string when that is nonempty and the empty string otherwise, whether or not the unit is
  valid; the pallet classification is "BLOK" exactly when that letter is "M" and "EURO"
  for every other letter, the empty one included.
\<close>

theorem unit_letter_and_pallet:
  "letter (fst (parseUnit (raw_unit note) ws)) = take 1 (raw_unit note)
   \<and> pallet (deriveFields note m) =
       (if letter (fst (parseUnit (raw_unit note) ws)) = ''M'' then ''BLOK'' else ''EURO'')
   \<and> (pallet (deriveFields note m) = ''BLOK'' \<longleftrightarrow> take 1 (raw_unit note) = ''M'')
   \<and> (pallet (deriveFields note m) = ''BLOK'' \<or> pallet (deriveFields note m) = ''EURO'')"
  by (simp add: letter_parseUnit pallet_deriveFields)


lemma digits_three:
  assumes "str = [a, b, c]" and "is_upper a" and "is_digit b" and "is_digit c"
  shows "valid (fst (parseUnit str ws))"
    and "digits (fst (parseUnit str ws)) = Some (Finite (of_nat (10 * digit_val b + digit_val c)))"
proof -
  from assms have t: "unit_regex_test str" by (simp add: unit_regex_test_iff)
  then show "valid (fst (parseUnit str ws))" by (simp add: valid_parseUnit)
  from t parseInt10_two_digits[OF assms(3,4)]
  show "digits (fst (parseUnit str ws)) = Some (Finite (of_nat (10 * digit_val b + digit_val c)))"
    by (simp add: digits_parseUnit assms(1))
qed

text \<open>Claim C4 on the notes with units E15, E28 and E2X.\<close>

theorem single_and_stacked_height_witness:
  "hoogte_enkel (deriveFields \<lparr>n_datum = Some ''01-01-2024'', n_aantal = Some ''9'', n_unit = Some ''E15''\<rparr>
       \<lparr>fileName = ''test.pdf'', fileIndex = 0, pageIndex = 1\<rparr>) = Some (Finite 150)
   \<and> hoogte_stack (deriveFields \<lparr>n_datum = Some ''01-01-2024'', n_aantal = Some ''9'', n_unit = Some ''E15''\<rparr>
       \<lparr>fileName = ''test.pdf'', fileIndex = 0, pageIndex = 1\<rparr>) = Some (Finite 300)
   \<and> hoogte_enkel (deriveFields \<lparr>n_datum = Some ''01-01-2024'', n_aantal = Some ''10'', n_unit = Some ''E28''\<rparr>
       \<lparr>fileName = ''test.pdf'', fileIndex = 0, pageIndex = 1\<rparr>) = Some (Finite 280)
   \<and> hoogte_stack (deriveFields \<lparr>n_datum = Some ''01-01-2024'', n_aantal = Some ''10'', n_unit = Some ''E28''\<rparr>
       \<lparr>fileName = ''test.pdf'', fileIndex = 0, pageIndex = 1\<rparr>) = Some (Finite 280)
   \<and> hoogte_enkel (deriveFields \<lparr>n_datum = Some ''01-01-2024'', n_aantal = Some ''7'', n_unit = Some ''E2X''\<rparr>
       \<lparr>fileName = ''test.pdf'', fileIndex = 0, pageIndex = 1\<rparr>) = None
   \<and> hoogte_stack (deriveFields \<lparr>n_datum = Some ''01-01-2024'', n_aantal = Some ''7'', n_unit = Some ''E2X''\<rparr>
       \<lparr>fileName = ''test.pdf'', fileIndex = 0, pageIndex = 1\<rparr>) = None
   \<and> warnings (deriveFields \<lparr>n_datum = Some ''01-01-2024'', n_aantal = Some ''7'', n_unit = Some ''E2X''\<rparr>
       \<lparr>fileName = ''test.pdf'', fileIndex = 0, pageIndex = 1\<rparr>)
       = [''Unit format invalid.'', ''Unit invalid; hoogte_enkel missing.'']"
  (is "?e1 \<and> ?s1 \<and> ?e2 \<and> ?s2 \<and> ?e3 \<and> ?s3 \<and> ?w3")
proof -
  let ?m = "\<lparr>fileName = ''test.pdf'', fileIndex = 0, pageIndex = 1\<rparr>"
  let ?n1 = "\<lparr>n_datum = Some ''01-01-2024'', n_aantal = Some ''9'', n_unit = Some ''E15''\<rparr>"
  let ?n2 = "\<lparr>n_datum = Some ''01-01-2024'', n_aantal = Some ''10'', n_unit = Some ''E28''\<rparr>"
  let ?n3 = "\<lparr>n_datum = Some ''01-01-2024'', n_aantal = Some ''7'', n_unit = Some ''E2X''\<rparr>"
  note c1 = single_and_stacked_height[of ?n1 ?m]
  note c2 = single_and_stacked_height[of ?n2 ?m]
  note c3 = single_and_stacked_height[of ?n3 ?m]
  have ru1: "raw_unit ?n1 = ''E15''" by code_simp
  have cl1: "is_upper CHR ''E''" "is_digit CHR ''1''" "is_digit CHR ''5''" by code_simp+
  note t1 = digits_three[OF ru1 cl1, of "[]"]
  have v1: "valid (fst (parseUnit (raw_unit ?n1) []))" by (rule t1(1))
  have d1: "digits (fst (parseUnit (raw_unit ?n1) [])) = Some (Finite (of_nat 15))"
    using t1(2) by (simp add: digit_val_def)
  from c1 v1 obtain k where "digits (fst (parseUnit (raw_unit ?n1) [])) = Some (Finite (of_nat k))"
    "hoogte_enkel (deriveFields ?n1 ?m) = Some (Finite (of_nat (k * 10)))" by blast
  with d1 have e1: ?e1 by simp
  with c1 have s1: ?s1 by simp
  have ru2: "raw_unit ?n2 = ''E28''" by code_simp
  have cl2: "is_upper CHR ''E''" "is_digit CHR ''2''" "is_digit CHR ''8''" by code_simp+
  note t2 = digits_three[OF ru2 cl2, of "[]"]
  have v2: "valid (fst (parseUnit (raw_unit ?n2) []))" by (rule t2(1))
  have d2: "digits (fst (parseUnit (raw_unit ?n2) [])) = Some (Finite (of_nat 28))"
    using t2(2) by (simp add: digit_val_def)
  from c2 v2 obtain j where "digits (fst (parseUnit (raw_unit ?n2) [])) = Some (Finite (of_nat j))"
    "hoogte_enkel (deriveFields ?n2 ?m) = Some (Finite (of_nat (j * 10)))" by blast
  with d2 have e2: ?e2 by simp
  with c2 have s2: ?s2 by simp
  have "\<not> unit_regex_test (raw_unit ?n3)" by code_simp
  then have v3: "\<not> valid (fst (parseUnit (raw_unit ?n3) []))" by (simp add: valid_parseUnit)
  have r3: "raw_aantal ?n3 = ''7''" by code_simp
  have u3: "trimStart (replace_first CHR '','' CHR ''.'' ''7'') = ''7''" by code_simp
  have "decimal_value (strip_sign ''7'') = Some 7" "\<not> has_minus ''7''" by code_simp+
  moreover have "is_binary64 7" by (rule is_binary64I[of _ 7 0]) simp_all
  ultimately have l3: "StrDecimalLiteral ''7'' = Some (Finite 7)" by (intro StrDecimalLiteral_unsigned)
  have a3: "snd (parseAantal (raw_aantal ?n3) []) = []" unfolding r3
    using parseAantal_whole[OF _ u3 l3, of "[]"] by simp
  from c3 v3 have e3: ?e3 by blast
  with c3 have s3: ?s3 by blast
  from c3 v3 a3 have w3: ?w3 by simp
  from e1 s1 e2 s2 e3 s3 w3 show ?thesis by (intro conjI)
qed

text \<open>Claim C5 on the trimmed strings E28, E2X, e28 and E281.\<close>

theorem parseUnit_valid_digits_witness:
  "valid (fst (parseUnit (trim '' E28 '') []))
   \<and> digits (fst (parseUnit (trim '' E28 '') [])) = Some (Finite 28)
   \<and> snd (parseUnit (trim '' E28 '') []) = []
   \<and> \<not> valid (fst (parseUnit (trim ''E2X'') []))
   \<and> digits (fst (parseUnit (trim ''E2X'') [])) = None
   \<and> snd (parseUnit (trim ''E2X'') []) = [''Unit format invalid.'']
   \<and> \<not> valid (fst (parseUnit (trim ''e28'') []))
   \<and> \<not> valid (fst (parseUnit (trim ''E281'') []))"
  (is "?v1 \<and> ?d1 \<and> ?w1 \<and> ?v2 \<and> ?d2 \<and> ?w2 \<and> ?v3 \<and> ?v4")
proof -
  note c1 = parseUnit_valid_digits[of "'' E28 ''" "[]"]
  note c2 = parseUnit_valid_digits[of "''E2X''" "[]"]
  note c3 = parseUnit_valid_digits[of "''e28''" "[]"]
  note c4 = parseUnit_valid_digits[of "''E281''" "[]"]
  have t1: "trim '' E28 '' = ''E28''" by code_simp
  have t2: "trim ''E2X'' = ''E2X''" by code_simp
  have t3: "trim ''e28'' = ''e28''" by code_simp
  have t4: "trim ''E281'' = ''E281''" by code_simp
  from c1 have v1: ?v1 unfolding t1 by simp
  from c1 v1 have d1: ?d1 unfolding t1 by simp
  from c1 v1 have w1: ?w1 unfolding t1 by simp
  from c2 have v2: ?v2 unfolding t2 by simp
  from c2 v2 have d2: ?d2 unfolding t2 by simp
  from c2 v2 have w2: ?w2 unfolding t2 by simp
  from c3 have v3: ?v3 unfolding t3 by simp
  from c4 have v4: ?v4 unfolding t4 by simp
  from v1 d1 w1 v2 d2 w2 v3 v4 show ?thesis by blast
qed

text \<open>Claim C6 on the units M15, E2X, the single letter M and the absent unit.\<close>

theorem unit_letter_and_pallet_witness:
  "pallet (deriveFields \<lparr>n_datum = Some ''01-01-2024'', n_aantal = Some ''8'', n_unit = Some ''M15''\<rparr>
       \<lparr>fileName = ''test.pdf'', fileIndex = 0, pageIndex = 1\<rparr>) = ''BLOK''
   \<and> pallet (deriveFields \<lparr>n_datum = Some ''01-01-2024'', n_aantal = Some ''7'', n_unit = Some ''E2X''\<rparr>
       \<lparr>fileName = ''test.pdf'', fileIndex = 0, pageIndex = 1\<rparr>) = ''EURO''
   \<and> pallet (deriveFields \<lparr>n_datum = Some ''01-01-2024'', n_aantal = Some ''7'', n_unit = Some '' M''\<rparr>
       \<lparr>fileName = ''test.pdf'', fileIndex = 0, pageIndex = 1\<rparr>) = ''BLOK''
   \<and> pallet (deriveFields \<lparr>n_datum = Some ''01-01-2024'', n_aantal = Some ''7'', n_unit = None\<rparr>
       \<lparr>fileName = ''test.pdf'', fileIndex = 0, pageIndex = 1\<rparr>) = ''EURO''"
  (is "?p1 \<and> ?p2 \<and> ?p3 \<and> ?p4")
proof -
  let ?m = "\<lparr>fileName = ''test.pdf'', fileIndex = 0, pageIndex = 1\<rparr>"
  let ?n1 = "\<lparr>n_datum = Some ''01-01-2024'', n_aantal = Some ''8'', n_unit = Some ''M15''\<rparr>"
  let ?n2 = "\<lparr>n_datum = Some ''01-01-2024'', n_aantal = Some ''7'', n_unit = Some ''E2X''\<rparr>"
  let ?n3 = "\<lparr>n_datum = Some ''01-01-2024'', n_aantal = Some ''7'', n_unit = Some '' M''\<rparr>"
  let ?n4 = "\<lparr>n_datum = Some ''01-01-2024'', n_aantal = Some ''7'', n_unit = None\<rparr>"
  have r1: "take 1 (raw_unit ?n1) = ''M''" by code_simp
  have r2: "take 1 (raw_unit ?n2) = ''E''" by code_simp
  have r3: "take 1 (raw_unit ?n3) = ''M''" by code_simp
  have r4: "take 1 (raw_unit ?n4) = []" by code_simp
  from unit_letter_and_pallet[of ?n1 "[]" ?m] r1 have p1: ?p1 by simp
  from unit_letter_and_pallet[of ?n2 "[]" ?m] r2 have p2: ?p2 by simp
  from unit_letter_and_pallet[of ?n3 "[]" ?m] r3 have p3: ?p3 by simp
  from unit_letter_and_pallet[of ?n4 "[]" ?m] r4 have p4: ?p4 by simp
  from p1 p2 p3 p4 show ?thesis by blast
qed

section \<open>Properties of the CSV export\<close>

lemma double_quotes_Nil: "double_quotes [] = []"
  by (simp add: double_quotes_def)

lemma double_quotes_Cons:
  "double_quotes (c # s) = (if c = dquote then dquote # dquote # double_quotes s else c # double_quotes s)"
  by (simp add: double_quotes_def)

lemma undouble_quotes_other:
  "a \<noteq> dquote \<Longrightarrow> undouble_quotes (a # r) = a # undouble_quotes r"
  by (cases r) simp_all

lemma undouble_double: "undouble_quotes (double_quotes s) = s"
  by (induction s) (simp_all add: double_quotes_Nil double_quotes_Cons undouble_quotes_other)

lemma csv_unescape_wrapped:
  "csv_unescape ([dquote] @ double_quotes s @ [dquote]) = s"
  by (simp add: csv_unescape_def undouble_double butlast_append)

text \<open>
  Claim C9. For every string field value that contains a comma or a quote, the exported
  cell is the value with every quote doubled, wrapped in quotes, and unescaping that cell
  gives the value back.
\<close>

theorem csv_cell_roundtrip:
  "str_includes s CHR '','' \<or> str_includes s dquote \<Longrightarrow>
     formatCsvValue (Some s) = [dquote] @ double_quotes s @ [dquote]
     \<and> csv_unescape (formatCsvValue (Some s)) = s"
  by (simp add: formatCsvValue_def csv_unescape_wrapped[simplified])

text \<open>Claim C9 on the value \<^verbatim>\<open>12,5\<close> and on a value with a quote and a comma.\<close>

theorem csv_cell_roundtrip_witness:
  "formatCsvValue (Some ''12,5'') = [dquote] @ ''12,5'' @ [dquote]
   \<and> csv_unescape (formatCsvValue (Some ''12,5'')) = ''12,5''
   \<and> formatCsvValue (Some (''a'' @ [dquote] @ '',b'')) = [dquote] @ ''a'' @ [dquote, dquote] @ '',b'' @ [dquote]
   \<and> csv_unescape (formatCsvValue (Some (''a'' @ [dquote] @ '',b''))) = ''a'' @ [dquote] @ '',b''"
proof -
  have i1: "str_includes ''12,5'' CHR '','' \<or> str_includes ''12,5'' dquote"
    by (simp add: str_includes_def)
  have i2: "str_includes (''a'' @ [dquote] @ '',b'') CHR '','' \<or> str_includes (''a'' @ [dquote] @ '',b'') dquote"
    by (simp add: str_includes_def)
  have d1: "double_quotes ''12,5'' = ''12,5''" by (simp add: double_quotes_def dquote_def)
  have d2: "double_quotes (''a'' @ [dquote] @ '',b'') = ''a'' @ [dquote, dquote] @ '',b''"
    by (simp add: double_quotes_def dquote_def)
  note c1 = csv_cell_roundtrip[OF i1] and c2 = csv_cell_roundtrip[OF i2]
  from c1 have a1: "formatCsvValue (Some ''12,5'') = [dquote] @ ''12,5'' @ [dquote]"
    unfolding d1 by (rule conjunct1)
  from c1 have b1: "csv_unescape (formatCsvValue (Some ''12,5'')) = ''12,5''"
    by (rule conjunct2)
  from c2 have a2: "formatCsvValue (Some (''a'' @ [dquote] @ '',b''))
      = [dquote] @ (''a'' @ [dquote, dquote] @ '',b'') @ [dquote]"
    unfolding d2 by (rule conjunct1)
  from c2 have b2: "csv_unescape (formatCsvValue (Some (''a'' @ [dquote] @ '',b''))) = ''a'' @ [dquote] @ '',b''"
    by (rule conjunct2)
  from a2 have a2': "formatCsvValue (Some (''a'' @ [dquote] @ '',b''))
      = [dquote] @ ''a'' @ [dquote, dquote] @ '',b'' @ [dquote]"
    by (simp only: append_assoc)
  from a1 b1 a2' b2 show ?thesis by (intro conjI)
qed

section \<open>Properties of the stores\<close>

subsection \<open>Dedupe keys within one session\<close>

lemma raw_new_row: "raw (DerivedFields.extend d (DerivedRow.fields note m idx)) = note"
  by (simp add: DerivedFields.defs DerivedRow.defs)

lemma meta_new_row: "meta (DerivedFields.extend d (DerivedRow.fields note m idx)) = m"
  by (simp add: DerivedFields.defs DerivedRow.defs)

lemma addNote_seen: "note_key m (snd p) \<in> dedupe s \<Longrightarrow> addNote m s p = s"
  by (simp add: addNote_def Let_def)

lemma addNote_keys:
  assumes "distinct (admitted_keys s)" and "set (admitted_keys s) \<subseteq> dedupe s"
  shows "distinct (admitted_keys (addNote m s p)) \<and> set (admitted_keys (addNote m s p)) \<subseteq> dedupe (addNote m s p)"
  using assms
  by (auto simp: addNote_def Let_def admitted_keys_def raw_new_row meta_new_row)

lemma foldl_addNote_keys:
  assumes "distinct (admitted_keys s)" and "set (admitted_keys s) \<subseteq> dedupe s"
  shows "distinct (admitted_keys (foldl (addNote m) s ps))
         \<and> set (admitted_keys (foldl (addNote m) s ps)) \<subseteq> dedupe (foldl (addNote m) s ps)"
  using assms
proof (induction ps arbitrary: s)
  case Nil
  then show ?case by simp
next
  case (Cons p ps)
  from addNote_keys[OF Cons.prems] show ?case by (simp add: Cons.IH)
qed

lemma admitted_keys_saveRows: "admitted_keys (saveRows s) = admitted_keys s"
  by (simp add: saveRows_def admitted_keys_def)

lemma dedupe_saveRows: "dedupe (saveRows s) = dedupe s"
  by (simp add: saveRows_def)

text \<open>Within one session, starting from an empty store, no two rows were admitted under
  the same key, and a note whose key is in the dedupe store creates no row.\<close>

lemma addNotes_keys:
  assumes "distinct (admitted_keys s)" and "set (admitted_keys s) \<subseteq> dedupe s"
  shows "distinct (admitted_keys (addNotes notes m s))
         \<and> set (admitted_keys (addNotes notes m s)) \<subseteq> dedupe (addNotes notes m s)"
  using foldl_addNote_keys[OF assms]
  by (simp add: addNotes_def admitted_keys_saveRows dedupe_saveRows)

lemma addNotes_seen:
  "note_key m note \<in> dedupe s \<Longrightarrow> rows (addNotes [note] m s) = rows s"
  by (simp add: addNotes_def saveRows_def addNote_seen)

lemma deriveFields_strings:
  "datum (deriveFields note m) = trim (or_empty (n_datum note))"
  "aantal (deriveFields note m) = raw_aantal note"
  "unit (deriveFields note m) = raw_unit note"
  "d_fileName (deriveFields note m) = fileName m"
  "d_pageIndex (deriveFields note m) = pageIndex m"
  by (simp_all add: deriveFields_def raw_aantal_def raw_unit_def Let_def split: prod.split)

lemma row_key_new_row:
  "row_key (json_row (DerivedFields.extend (deriveFields note m) (DerivedRow.fields note m idx))) =
     fileName m @ ''|'' @ string_of_nat (pageIndex m) @ ''|'' @ trim (or_empty (n_datum note))
       @ ''|'' @ raw_aantal note @ ''|'' @ raw_unit note"
  by (simp add: row_key_def json_row_def DerivedFields.defs DerivedRow.defs deriveFields_strings)

lemma raw_json_row: "raw (json_row r) = raw r"
  by (simp add: json_row_def)

lemma addNotes_single_new:
  assumes "note_key m note \<notin> dedupe s"
  shows "rows (addNotes [note] m s) =
           rows s @ [DerivedFields.extend (deriveFields note m) (DerivedRow.fields note m 0)]"
    and "dedupe (addNotes [note] m s) = insert (note_key m note) (dedupe s)"
    and "storage (addNotes [note] m s) =
           Some (map json_row (rows s @ [DerivedFields.extend (deriveFields note m) (DerivedRow.fields note m 0)]))"
  using assms by (simp_all add: addNotes_def saveRows_def addNote_def Let_def)

lemma addNotes_two_same_key:
  assumes "note_key m n1 \<notin> dedupe s" and "note_key m n2 = note_key m n1"
  shows "rows (addNotes [n1, n2] m s) =
           rows s @ [DerivedFields.extend (deriveFields n1 m) (DerivedRow.fields n1 m 0)]"
  using assms by (simp add: addNotes_def saveRows_def addNote_def Let_def)

text \<open>The two keys of a row agree when no field of its note has white space around it.\<close>

lemma row_key_trimmed_note:
  assumes "trim (or_empty (n_datum note)) = or_empty (n_datum note)"
    and "trim (or_empty (n_aantal note)) = or_empty (n_aantal note)"
    and "trim (or_empty (n_unit note)) = or_empty (n_unit note)"
  shows "row_key (json_row (DerivedFields.extend (deriveFields note m) (DerivedRow.fields note m idx)))
           = note_key m note"
  using assms by (simp add: row_key_new_row note_key_def raw_aantal_def raw_unit_def)

lemma page_load_None: "page_load None = \<lparr>rows = [], dedupe = {}, storage = None\<rparr>"
  by (simp add: page_load_def loadStoredRows_def)

lemma page_load_Some:
  "page_load (Some rs) = \<lparr>rows = rs, dedupe = set (map row_key rs), storage = Some rs\<rparr>"
  by (simp add: page_load_def loadStoredRows_def)

theorem dedupe_key_lost_on_restart:
  "note_key \<lparr>fileName = ''a.pdf'', fileIndex = 0, pageIndex = 2\<rparr>
       \<lparr>n_datum = Some ''01-01-2024'', n_aantal = Some '' 10'', n_unit = Some ''E28''\<rparr>
     \<in> dedupe (addNotes [\<lparr>n_datum = Some ''01-01-2024'', n_aantal = Some '' 10'', n_unit = Some ''E28''\<rparr>]
                 \<lparr>fileName = ''a.pdf'', fileIndex = 0, pageIndex = 2\<rparr> (page_load None))
   \<and> note_key \<lparr>fileName = ''a.pdf'', fileIndex = 0, pageIndex = 2\<rparr>
       \<lparr>n_datum = Some ''01-01-2024'', n_aantal = Some '' 10'', n_unit = Some ''E28''\<rparr>
     \<notin> dedupe (page_load (storage (addNotes [\<lparr>n_datum = Some ''01-01-2024'', n_aantal = Some '' 10'', n_unit = Some ''E28''\<rparr>]
                 \<lparr>fileName = ''a.pdf'', fileIndex = 0, pageIndex = 2\<rparr> (page_load None))))
   \<and> map raw (rows (addNotes [\<lparr>n_datum = Some ''01-01-2024'', n_aantal = Some '' 10'', n_unit = Some ''E28''\<rparr>]
                 \<lparr>fileName = ''a.pdf'', fileIndex = 0, pageIndex = 2\<rparr>
                 (page_load (storage (addNotes [\<lparr>n_datum = Some ''01-01-2024'', n_aantal = Some '' 10'', n_unit = Some ''E28''\<rparr>]
                    \<lparr>fileName = ''a.pdf'', fileIndex = 0, pageIndex = 2\<rparr> (page_load None))))))
       = [\<lparr>n_datum = Some ''01-01-2024'', n_aantal = Some '' 10'', n_unit = Some ''E28''\<rparr>,
          \<lparr>n_datum = Some ''01-01-2024'', n_aantal = Some '' 10'', n_unit = Some ''E28''\<rparr>]"
  (is "?A \<and> ?B \<and> ?C")
proof -
  let ?m = "\<lparr>fileName = ''a.pdf'', fileIndex = 0, pageIndex = 2\<rparr>"
  let ?n = "\<lparr>n_datum = Some ''01-01-2024'', n_aantal = Some '' 10'', n_unit = Some ''E28''\<rparr>"
  let ?row = "DerivedFields.extend (deriveFields ?n ?m) (DerivedRow.fields ?n ?m 0)"
  have k: "note_key ?m ?n = ''a.pdf|2|01-01-2024| 10|E28''" by code_simp
  have t1: "trim (or_empty (n_datum ?n)) = ''01-01-2024''" by code_simp
  have t2: "raw_aantal ?n = ''10''" by code_simp
  have t3: "raw_unit ?n = ''E28''" by code_simp
  have t4: "string_of_nat (pageIndex ?m) = ''2''" by code_simp
  have rk: "row_key (json_row ?row) = ''a.pdf|2|01-01-2024|10|E28''"
    unfolding row_key_new_row t1 t2 t3 t4 by simp
  have fresh: "note_key ?m ?n \<notin> dedupe (page_load None)" by (simp add: page_load_None)
  note s1 = addNotes_single_new[OF fresh]
  have A: ?A by (simp add: s1(2))
  have st: "storage (addNotes [?n] ?m (page_load None)) = Some [json_row ?row]"
    unfolding s1(3) by (simp add: page_load_None)
  have d2: "dedupe (page_load (Some [json_row ?row])) = {''a.pdf|2|01-01-2024|10|E28''}"
    unfolding page_load_Some by (simp add: rk)
  have B: ?B unfolding st d2 k by simp
  then have fresh2: "note_key ?m ?n \<notin> dedupe (page_load (Some [json_row ?row]))"
    unfolding st .
  have C: ?C unfolding st addNotes_single_new(1)[OF fresh2]
    by (simp add: page_load_Some raw_json_row raw_new_row)
  from A B C show ?thesis by (intro conjI)
qed

theorem note_key_not_injective:
  "\<exists>m n1 n2. n1 \<noteq> n2 \<and> n_aantal n1 \<noteq> n_aantal n2 \<and> note_key m n1 = note_key m n2
      \<and> map raw (rows (addNotes [n1, n2] m (page_load None))) = [n1]"
proof -
  let ?m = "\<lparr>fileName = ''a.pdf'', fileIndex = 0, pageIndex = 2\<rparr>"
  let ?n1 = "\<lparr>n_datum = Some ''01-01-2024|5'', n_aantal = Some ''6'', n_unit = Some ''E28''\<rparr>"
  let ?n2 = "\<lparr>n_datum = Some ''01-01-2024'', n_aantal = Some ''5|6'', n_unit = Some ''E28''\<rparr>"
  have ne: "?n1 \<noteq> ?n2" by simp
  have na: "n_aantal ?n1 \<noteq> n_aantal ?n2" by simp
  have k: "note_key ?m ?n1 = note_key ?m ?n2" by code_simp
  have fresh: "note_key ?m ?n1 \<notin> dedupe (page_load None)" by (simp add: page_load_None)
  have r: "map raw (rows (addNotes [?n1, ?n2] ?m (page_load None))) = [?n1]"
    unfolding addNotes_two_same_key[OF fresh k[symmetric]]
    by (simp add: page_load_None raw_new_row)
  from ne na k r show ?thesis by (intro exI conjI)
qed

section \<open>Properties of a page task\<close>

lemma addNotes_Nil: "rows (addNotes [] m s) = rows s" "dedupe (addNotes [] m s) = dedupe s"
  by (simp_all add: addNotes_def saveRows_def)

text \<open>
  Claim C8. For every response payload on which reading \<^verbatim>\<open>notes\<close> is possible (every
  payload other than \<^verbatim>\<open>null\<close>) and gives something that is not an array, be it absent
  or of another type, the page task succeeds and leaves the rows and the dedupe store as
  they were: no row is produced.
\<close>

theorem notes_not_an_array_gives_no_rows:
  assumes "get_notes data = Inr v" and "\<forall>ns. v \<noteq> Notes ns"
  shows "\<exists>s'. handlePage s m True (Response True status (Some data)) = Inr s'
            \<and> rows s' = rows s \<and> dedupe s' = dedupe s"
proof (cases "truthy v")
  case True
  with assms have "handlePage s m True (Response True status (Some data)) = Inr s"
    by (cases v) (simp_all add: handlePage_def callExtractApi_def)
  then show ?thesis by simp
next
  case False
  with assms have "handlePage s m True (Response True status (Some data)) = Inr (addNotes [] m s)"
    by (simp add: handlePage_def callExtractApi_def)
  then show ?thesis by (simp add: addNotes_Nil)
qed

text \<open>Claim C8 on a payload without \<^verbatim>\<open>notes\<close> and on one whose \<^verbatim>\<open>notes\<close> is a string.\<close>

theorem notes_not_an_array_gives_no_rows_witness:
  "(\<exists>s'. handlePage (page_load None) \<lparr>fileName = ''a.pdf'', fileIndex = 0, pageIndex = 2\<rparr> True
            (Response True 200 (Some (Obj [(''meta'', Obj [])]))) = Inr s'
         \<and> rows s' = [] \<and> dedupe s' = {})
   \<and> (\<exists>s'. handlePage (page_load None) \<lparr>fileName = ''a.pdf'', fileIndex = 0, pageIndex = 2\<rparr> True
            (Response True 200 (Some (Obj [(''notes'', Str ''none''), (''meta'', Obj [])]))) = Inr s'
         \<and> rows s' = [] \<and> dedupe s' = {})"
proof -
  have g1: "get_notes (Obj [(''meta'', Obj [])]) = Inr Undefined" by simp
  have n1: "\<forall>ns. Undefined \<noteq> Notes ns" by simp
  have g2: "get_notes (Obj [(''notes'', Str ''none''), (''meta'', Obj [])]) = Inr (Str ''none'')" by simp
  have n2: "\<forall>ns. Str ''none'' \<noteq> Notes ns" by simp
  have e: "rows (page_load None) = []" "dedupe (page_load None) = {}"
    by (simp_all add: page_load_def loadStoredRows_def)
  from notes_not_an_array_gives_no_rows[OF g1 n1, of "page_load None"]
       notes_not_an_array_gives_no_rows[OF g2 n2, of "page_load None"]
  show ?thesis unfolding e by (intro conjI)
qed

section \<open>Properties of the scheduler\<close>

text \<open>The loop keeps everything in \<open>sched_inv\<close> but its last clause, and ends with it.\<close>

lemma refill_fields:
  "processedPages (refill n s) = processedPages s \<and> inProgress (refill n s) = inProgress s"
  by (induction n s rule: refill.induct) (subst (1 2) refill.simps, simp)

lemma refill_inv:
  assumes "cursor s \<le> n" "running s = int (length (in_flight s))" "running s \<le> concurrency"
    "dispatched s = [0 ..< cursor s]" "cursor s = processedPages s + length (in_flight s)"
    "distinct (in_flight s)" "set (in_flight s) \<subseteq> {..< cursor s}"
  shows "cursor (refill n s) \<le> n
      \<and> running (refill n s) = int (length (in_flight (refill n s)))
      \<and> running (refill n s) \<le> concurrency
      \<and> dispatched (refill n s) = [0 ..< cursor (refill n s)]
      \<and> cursor (refill n s) = processedPages (refill n s) + length (in_flight (refill n s))
      \<and> distinct (in_flight (refill n s))
      \<and> set (in_flight (refill n s)) \<subseteq> {..< cursor (refill n s)}
      \<and> (running (refill n s) = concurrency \<or> cursor (refill n s) = n)"
  using assms
proof (induction n s rule: refill.induct)
  case (1 n s)
  show ?case
  proof (cases "running s < concurrency \<and> cursor s < n")
    case True
    let ?s = "s\<lparr> cursor := cursor s + 1, running := running s + 1,
                 in_flight := in_flight s @ [cursor s], dispatched := dispatched s @ [cursor s] \<rparr>"
    have step: "refill n s = refill n ?s" by (subst refill.simps) (rule if_P[OF True])
    have "cursor ?s \<le> n" using True by simp
    moreover have "running ?s = int (length (in_flight ?s))" using "1.prems"(2) by simp
    moreover have "running ?s \<le> concurrency" using True by simp
    moreover have "dispatched ?s = [0 ..< cursor ?s]" using "1.prems"(4) by simp
    moreover have "cursor ?s = processedPages ?s + length (in_flight ?s)" using "1.prems"(5) by simp
    moreover have "distinct (in_flight ?s)" using "1.prems"(6,7) by auto
    moreover have "set (in_flight ?s) \<subseteq> {..< cursor ?s}" using "1.prems"(7) by auto
    ultimately show ?thesis unfolding step using "1.IH"[OF True] by blast
  next
    case False
    have stop: "refill n s = s" by (subst refill.simps) (rule if_not_P[OF False])
    from False "1.prems"(1,3) have "running s = concurrency \<or> cursor s = n" by auto
    with "1.prems" show ?thesis unfolding stop by simp
  qed
qed


lemma runNext_inv:
  assumes "cursor s \<le> n" "running s = int (length (in_flight s))" "running s \<le> concurrency"
    "dispatched s = [0 ..< cursor s]" "cursor s = processedPages s + length (in_flight s)"
    "distinct (in_flight s)" "set (in_flight s) \<subseteq> {..< cursor s}" "inProgress s"
  shows "sched_inv n (runNext n s)"
proof (cases "n \<le> cursor s \<and> running s = 0")
  case True
  have r: "runNext n s = s\<lparr> inProgress := False \<rparr>" unfolding runNext_def using True by (rule if_P)
  from True assms(2) have "length (in_flight s) = 0" by linarith
  with True assms(1,5) have "processedPages s = n" "cursor s = n" "length (in_flight s) = 0"
    by linarith+
  then have e: "processedPages s = n" "cursor s = n" "in_flight s = []" "running s = 0"
    using True by simp_all
  have "sched_inv n (s\<lparr> inProgress := False \<rparr>)"
    unfolding sched_inv_def using assms(4) e by (simp add: concurrency_def)
  then show ?thesis unfolding r .
next
  case False
  have r: "runNext n s = refill n s" unfolding runNext_def using False by (rule if_not_P)
  note ri = refill_inv[OF assms(1-7)] and rf = refill_fields[of n s]
  have "processedPages (refill n s) < n"
  proof (rule ccontr)
    assume "\<not> processedPages (refill n s) < n"
    with rf have "n \<le> processedPages s" by simp
    with assms(1,5) have "length (in_flight s) = 0" "n \<le> cursor s" by linarith+
    with assms(2) have "n \<le> cursor s \<and> running s = 0" by simp
    with False show False by contradiction
  qed
  with rf assms(8) have ip: "inProgress (refill n s) = (processedPages (refill n s) < n)" by simp
  from ri ip show ?thesis unfolding r sched_inv_def by blast
qed

lemma start_inv: "sched_inv n (start n)"
  unfolding start_def by (rule runNext_inv) (simp_all add: concurrency_def)

lemma settle_inv:
  assumes "sched_inv n s" and "t \<in> set (in_flight s)"
  shows "sched_inv n (settle n t res s)"
proof -
  from assms(2) have len: "0 < length (in_flight s)" by (cases "in_flight s") auto
  have l1: "length (remove1 t (in_flight s)) = length (in_flight s) - 1"
    using assms(2) by (simp add: length_remove1)
  from assms(1) have i: "cursor s \<le> n" "running s = int (length (in_flight s))"
    "running s \<le> concurrency" "dispatched s = [0 ..< cursor s]"
    "cursor s = processedPages s + length (in_flight s)" "distinct (in_flight s)"
    "set (in_flight s) \<subseteq> {..< cursor s}" "inProgress s = (processedPages s < n)"
    unfolding sched_inv_def by blast+
  from i(1,5,8) len have ip: "inProgress s" by simp
  from len l1 i(2) have r1: "running s - 1 = int (length (remove1 t (in_flight s)))" by linarith
  from len l1 i(5) have c1: "cursor s = processedPages s + 1 + length (remove1 t (in_flight s))" by linarith
  from i(3) have b1: "running s - 1 \<le> concurrency" by linarith
  let ?s = "s\<lparr>running := running s - 1, processedPages := processedPages s + 1,
               in_flight := remove1 t (in_flight s)\<rparr>"
  have a1: "cursor ?s \<le> n" using i(1) by simp
  have a2: "running ?s = int (length (in_flight ?s))" using r1 by simp
  have a3: "running ?s \<le> concurrency" using b1 by simp
  have a4: "dispatched ?s = [0 ..< cursor ?s]" using i(4) by simp
  have a5: "cursor ?s = processedPages ?s + length (in_flight ?s)" using c1 by simp
  have a6: "distinct (in_flight ?s)" using i(6) by simp
  have a7: "set (in_flight ?s) \<subseteq> {..< cursor ?s}"
    using i(7) set_remove1_subset[of t "in_flight s"] by auto
  have a8: "inProgress ?s" using ip by simp
  show ?thesis unfolding settle_def by (rule runNext_inv[OF a1 a2 a3 a4 a5 a6 a7 a8])
qed

lemma reachable_inv: "reachable n s \<Longrightarrow> sched_inv n s"
  by (induction rule: reachable.induct) (simp_all add: start_inv settle_inv)

lemma processedPages_runNext: "processedPages (runNext n s) = processedPages s"
  by (simp add: runNext_def refill_fields)

lemma map_nth_upt_take: "c \<le> length xs \<Longrightarrow> map ((!) xs) [0 ..< c] = take c xs"
  by (metis map_nth take_map take_upt add_0)


lemma settle_processedPages: "processedPages (settle n t res s) = processedPages s + 1"
  by (simp add: settle_def processedPages_runNext)

text \<open>
  Claim C7. A task makes progress only between two callbacks, so the states of
  \<open>reachable\<close> are all the instants at which tasks run side by side; inside a callback
  \<^verbatim>\<open>running\<close> goes down by one and then up while it is below the bound.
  In every state of a run over the flattened task list, with the bound 2: at
  most 2 tasks are pending and \<^verbatim>\<open>running\<close> counts them; the tasks called so far are the
  first \<open>cursor\<close> tasks of the list in list order, each once; a free slot is never left
  empty while a task is waiting; the settling of a pending task, fulfilled or rejected,
  adds exactly one to the processed-page count; the run is in progress exactly while that
  count is below the number of tasks, and then some task is pending; and once the run is
  idle the count equals the number of tasks, every task of the list has been called
  exactly once, and none is pending.
\<close>

theorem scheduler_bound_order_count:
  assumes "reachable (length tasks) s"
  shows "running s \<le> concurrency \<and> concurrency = 2
       \<and> running s = int (length (in_flight s))
       \<and> map ((!) tasks) (dispatched s) = take (cursor s) tasks
       \<and> distinct (dispatched s)
       \<and> distinct (in_flight s) \<and> set (in_flight s) \<subseteq> set (dispatched s)
       \<and> processedPages s + length (in_flight s) = length (dispatched s)
       \<and> (running s = concurrency \<or> cursor s = length tasks)
       \<and> (\<forall>t res. t \<in> set (in_flight s) \<longrightarrow>
             processedPages (settle (length tasks) t res s) = processedPages s + 1)
       \<and> inProgress s = (processedPages s < length tasks)
       \<and> (inProgress s \<longrightarrow> in_flight s \<noteq> [])
       \<and> (\<not> inProgress s \<longrightarrow>
             processedPages s = length tasks \<and> map ((!) tasks) (dispatched s) = tasks
             \<and> in_flight s = [] \<and> running s = 0)"
proof -
  from reachable_inv[OF assms] have i: "cursor s \<le> length tasks"
    "running s = int (length (in_flight s))"
    "running s \<le> concurrency" "dispatched s = [0 ..< cursor s]"
    "cursor s = processedPages s + length (in_flight s)" "distinct (in_flight s)"
    "set (in_flight s) \<subseteq> {..< cursor s}" "inProgress s = (processedPages s < length tasks)"
    "running s = concurrency \<or> cursor s = length tasks"
    unfolding sched_inv_def by blast+
  have order: "map ((!) tasks) (dispatched s) = take (cursor s) tasks"
    unfolding i(4) using i(1) by (rule map_nth_upt_take)
  have d: "distinct (dispatched s)" unfolding i(4) by simp
  have sub: "set (in_flight s) \<subseteq> set (dispatched s)" unfolding i(4) using i(7) by auto
  have cnt: "processedPages s + length (in_flight s) = length (dispatched s)"
    unfolding i(4) using i(5) by simp
  have pend: "inProgress s \<longrightarrow> in_flight s \<noteq> []"
  proof
    assume "inProgress s"
    with i(8) have lt: "processedPages s < length tasks" by simp
    from i(9) show "in_flight s \<noteq> []"
    proof
      assume "running s = concurrency"
      with i(2) show ?thesis by (auto simp: concurrency_def)
    next
      assume "cursor s = length tasks"
      with lt i(5) have "0 < length (in_flight s)" by linarith
      then show ?thesis by simp
    qed
  qed
  have idle: "\<not> inProgress s \<longrightarrow>
             processedPages s = length tasks \<and> map ((!) tasks) (dispatched s) = tasks
             \<and> in_flight s = [] \<and> running s = 0"
  proof
    assume "\<not> inProgress s"
    with i(8) have "length tasks \<le> processedPages s" by simp
    with i(1,5) have e: "processedPages s = length tasks" "cursor s = length tasks"
      "length (in_flight s) = 0" by linarith+
    from e(3) i(2) have "in_flight s = []" "running s = 0" by simp_all
    moreover from order e(2) have "map ((!) tasks) (dispatched s) = tasks" by simp
    ultimately show "processedPages s = length tasks \<and> map ((!) tasks) (dispatched s) = tasks
             \<and> in_flight s = [] \<and> running s = 0" using e(1) by blast
  qed
  have once: "\<forall>t res. t \<in> set (in_flight s) \<longrightarrow>
             processedPages (settle (length tasks) t res s) = processedPages s + 1"
    by (simp add: settle_processedPages)
  have k: "concurrency = 2" by (simp add: concurrency_def)
  from i(3) k i(2) order d i(6) sub cnt i(9) once i(8) pend idle show ?thesis by blast
qed

text \<open>Claim C7 on a run over two files of 2 pages and 1 page, where the second task
  settles first and the first task fails.\<close>

theorem scheduler_bound_order_count_witness:
  "reachable (length (page_tasks [2, 1]))
      (settle 3 2 Fulfilled (settle 3 0 Rejected (settle 3 1 Fulfilled (start 3))))
   \<and> \<not> inProgress (settle 3 2 Fulfilled (settle 3 0 Rejected (settle 3 1 Fulfilled (start 3))))
   \<and> processedPages (settle 3 2 Fulfilled (settle 3 0 Rejected (settle 3 1 Fulfilled (start 3)))) = 3
   \<and> map ((!) (page_tasks [2, 1]))
        (dispatched (settle 3 2 Fulfilled (settle 3 0 Rejected (settle 3 1 Fulfilled (start 3)))))
      = [(0, 1), (0, 2), (1, 1)]
   \<and> running (settle 3 1 Fulfilled (start 3)) = 2"
proof -
  have len: "length (page_tasks [2, 1]) = 3" by code_simp
  have tasks: "page_tasks [2, 1] = [(0, 1), (0, 2), (1, 1)]" by code_simp
  have f0: "in_flight (start 3) = [0, 1]" by code_simp
  have f1: "in_flight (settle 3 1 Fulfilled (start 3)) = [0, 2]" by code_simp
  have f2: "in_flight (settle 3 0 Rejected (settle 3 1 Fulfilled (start 3))) = [2]" by code_simp
  have r0: "reachable 3 (start 3)" by (rule reachable_start)
  have r1: "reachable 3 (settle 3 1 Fulfilled (start 3))"
    by (rule reachable_settle[OF r0]) (unfold f0, simp)
  have r2: "reachable 3 (settle 3 0 Rejected (settle 3 1 Fulfilled (start 3)))"
    by (rule reachable_settle[OF r1]) (unfold f1, simp)
  have r3: "reachable 3 (settle 3 2 Fulfilled (settle 3 0 Rejected (settle 3 1 Fulfilled (start 3))))"
    by (rule reachable_settle[OF r2]) (unfold f2, simp)
  have idle: "\<not> inProgress (settle 3 2 Fulfilled (settle 3 0 Rejected (settle 3 1 Fulfilled (start 3))))"
    by code_simp
  note c = scheduler_bound_order_count[of "page_tasks [2, 1]"
      "settle 3 2 Fulfilled (settle 3 0 Rejected (settle 3 1 Fulfilled (start 3)))", unfolded len, OF r3]
  from c idle have p: "processedPages (settle 3 2 Fulfilled (settle 3 0 Rejected (settle 3 1 Fulfilled (start 3)))) = 3"
    by blast
  from c idle have o: "map ((!) (page_tasks [2, 1]))
        (dispatched (settle 3 2 Fulfilled (settle 3 0 Rejected (settle 3 1 Fulfilled (start 3)))))
      = page_tasks [2, 1]" by blast
  have q: "running (settle 3 1 Fulfilled (start 3)) = 2" by code_simp
  have r3': "reachable (length (page_tasks [2, 1]))
      (settle 3 2 Fulfilled (settle 3 0 Rejected (settle 3 1 Fulfilled (start 3))))"
    unfolding len by (rule r3)
  have o': "map ((!) (page_tasks [2, 1]))
        (dispatched (settle 3 2 Fulfilled (settle 3 0 Rejected (settle 3 1 Fulfilled (start 3)))))
      = [(0, 1), (0, 2), (1, 1)]"
    using o by (simp only: tasks)
  from r3' idle p o' q show ?thesis by (intro conjI)
qed

end
